theory Spec2Isabelle
  imports Main "HOL-Library.Sublist"
begin

section \<open>Python string operations used by the two scripts\<close>

text \<open>
  A \<^typ>\<open>char\<close> stands for a code point below 256. \<open>is_space\<close> is Python's
  \<^verbatim>\<open>str.isspace\<close> on those code points; \<^verbatim>\<open>str.strip()\<close> and \<^verbatim>\<open>str.split()\<close> use it.
\<close>

definition is_space :: "char \<Rightarrow> bool" where
  "is_space c = (c \<in> {CHR 0x09, CHR 0x0A, CHR 0x0B, CHR 0x0C, CHR 0x0D,
                       CHR 0x1C, CHR 0x1D, CHR 0x1E, CHR 0x1F, CHR 0x20,
                       CHR 0x85, CHR 0xA0})"

definition strip :: "string \<Rightarrow> string" where
  "strip s = rev (dropWhile is_space (rev (dropWhile is_space s)))"

definition rstrip_chars :: "string \<Rightarrow> string \<Rightarrow> string" where
  "rstrip_chars cs s = rev (dropWhile (\<lambda>c. c \<in> set cs) (rev s))"

text \<open>\<^verbatim>\<open>s.split()\<close>: the maximal runs of non-whitespace characters, in order.\<close>

function split_ws :: "string \<Rightarrow> string list" where
  "split_ws s =
     (let t = dropWhile is_space s
      in if t = [] then []
         else takeWhile (\<lambda>c. \<not> is_space c) t # split_ws (dropWhile (\<lambda>c. \<not> is_space c) t))"
  by pat_completeness auto
termination
proof (relation "measure length")
  show "wf (measure length)" by simp
next
  fix s t :: string
  assume t: "t = dropWhile is_space s" and ne: "t \<noteq> []"
  obtain c cs where tc: "t = c # cs" using ne by (cases t) auto
  have "\<not> is_space (hd (dropWhile is_space s))"
    using hd_dropWhile [of is_space s] t ne by simp
  then have "\<not> is_space c"
    using t tc by (metis list.sel(1))
  then have "length (dropWhile (\<lambda>c. \<not> is_space c) t) < length t"
    using tc by (simp add: le_imp_less_Suc length_dropWhile_le)
  moreover have "length t \<le> length s"
    using t by (simp add: length_dropWhile_le)
  ultimately show "(dropWhile (\<lambda>c. \<not> is_space c) t, s) \<in> measure length"
    by simp
qed

declare split_ws.simps [simp del]

text \<open>
  The first occurrence of a separator: the text before it and the text after it.
  The scripts only split on non-empty literal separators.
\<close>

fun split_at_first :: "string \<Rightarrow> string \<Rightarrow> (string \<times> string) option" where
  "split_at_first sep [] = (if sep = [] then Some ([], []) else None)"
| "split_at_first sep (c # cs) =
     (if prefix sep (c # cs) then Some ([], drop (length sep) (c # cs))
      else map_option (\<lambda>(a, b). (c # a, b)) (split_at_first sep cs))"

text \<open>\<^verbatim>\<open>sub in s\<close>\<close>

definition contains :: "string \<Rightarrow> string \<Rightarrow> bool" where
  "contains sub s = (split_at_first sub s \<noteq> None)"

text \<open>\<^verbatim>\<open>s.split(sep, 1)\<close>\<close>

definition split_once :: "string \<Rightarrow> string \<Rightarrow> string list" where
  "split_once sep s = (case split_at_first sep s of None \<Rightarrow> [s] | Some (a, b) \<Rightarrow> [a, b])"

lemma split_at_first_shorter:
  "split_at_first sep s = Some (a, b) \<Longrightarrow> sep \<noteq> [] \<Longrightarrow> length b < length s"
proof (induction s arbitrary: a)
  case Nil
  then show ?case by simp
next
  case (Cons c cs)
  show ?case
  proof (cases "prefix sep (c # cs)")
    case True
    with Cons.prems show ?thesis by auto
  next
    case False
    with Cons.prems obtain a' where "split_at_first sep cs = Some (a', b)"
      by (auto split: prod.splits)
    from Cons.IH [OF this Cons.prems(2)] show ?thesis by simp
  qed
qed

text \<open>\<^verbatim>\<open>s.split(sep)\<close> for a non-empty separator.\<close>

function split_sep :: "string \<Rightarrow> string \<Rightarrow> string list" where
  "split_sep sep s =
     (if sep = [] then [s]
      else case split_at_first sep s of
             None \<Rightarrow> [s]
           | Some (a, b) \<Rightarrow> a # split_sep sep b)"
  by pat_completeness auto
termination
  by (relation "measure (\<lambda>(sep, s). length s)") (auto dest: split_at_first_shorter)

declare split_sep.simps [simp del]

text \<open>\<^verbatim>\<open>sep.join(xs)\<close> on a list of strings, and on a string (whose items are its characters).\<close>

fun join :: "string \<Rightarrow> string list \<Rightarrow> string" where
  "join sep [] = []"
| "join sep [x] = x"
| "join sep (x # y # ys) = x @ sep @ join sep (y # ys)"

definition join_chars :: "string \<Rightarrow> string \<Rightarrow> string" where
  "join_chars sep s = join sep (map (\<lambda>c. [c]) s)"

definition startswith :: "string \<Rightarrow> string \<Rightarrow> bool" where
  "startswith s p = prefix p s"

section \<open>Ordered dictionaries\<close>

text \<open>
  A Python dict keeps insertion order: assigning to a key that is present replaces the
  value in place, assigning to a new key appends it.
\<close>

fun dict_set :: "('k \<times> 'v) list \<Rightarrow> 'k \<Rightarrow> 'v \<Rightarrow> ('k \<times> 'v) list" where
  "dict_set [] k v = [(k, v)]"
| "dict_set ((k', v') # d) k v = (if k' = k then (k, v) # d else (k', v') # dict_set d k v)"

abbreviation dict_get :: "('k \<times> 'v) list \<Rightarrow> 'k \<Rightarrow> 'v option" where
  "dict_get d k \<equiv> map_of d k"

section \<open>The extractor (asrs_html_to_json.py)\<close>

datatype py_error = IndexError | AttributeError | KeyError | TypeError | ValueError | SystemExit

text \<open>
  A document is the sequence of sibling \<^verbatim>\<open><p>\<close> elements. Of each the code reads the class
  list (\<^verbatim>\<open>get("class", [])\<close>), the text (\<^verbatim>\<open>get_text(" ", strip=True)\<close>) and the inner markup
  (\<^verbatim>\<open>decode_contents()\<close>).
\<close>

record node =
  node_class :: "string list"
  node_text :: string
  node_contents :: string

text \<open>A section maps a key to a string or to a list of strings.\<close>

datatype field_value = Str string | Lst "string list"

type_synonym section_dict = "(string \<times> field_value) list"

text \<open>A record maps \<open>ACN\<close> to a string and a section name to a section.\<close>

datatype entry = Ident string | Sec section_dict

type_synonym incident = "(string \<times> entry) list"

text \<open>
  \<open>_parse_acndata_block\<close>. The parameter \<open>gt\<close> is the library call
  \<^verbatim>\<open>BeautifulSoup(line, "html.parser").get_text(" ", strip=True)\<close> on one raw line.
\<close>

definition parse_acndata_block :: "(string \<Rightarrow> string) \<Rightarrow> string \<Rightarrow> string list" where
  "parse_acndata_block gt c =
     map gt (filter (\<lambda>line. strip line \<noteq> []) (split_sep ''<br>'' c))"

text \<open>The key/value branch of the line loop: duplicates are kept as lists.\<close>

definition store_kv :: "section_dict \<Rightarrow> string \<Rightarrow> string \<Rightarrow> section_dict" where
  "store_kv sec key val =
     (case dict_get sec key of
        Some prev \<Rightarrow>
          dict_set sec key (case prev of Lst ps \<Rightarrow> Lst (ps @ [val]) | Str p \<Rightarrow> Lst [p, val])
      | None \<Rightarrow> dict_set sec key (Str val))"

text \<open>
  One line of a data block. \<^verbatim>\<open>setdefault("text", []).append(line)\<close> raises AttributeError
  when \<open>text\<close> holds a string.
\<close>

definition store_line :: "section_dict \<Rightarrow> string \<Rightarrow> py_error + section_dict" where
  "store_line sec line =
     (if contains '' : '' line then
        (case map strip (split_once '' : '' line) of
           [key, val] \<Rightarrow> Inr (store_kv sec key val)
         | _ \<Rightarrow> Inl ValueError)
      else
        (case dict_get sec ''text'' of
           None \<Rightarrow> Inr (dict_set sec ''text'' (Lst [line]))
         | Some (Lst ls) \<Rightarrow> Inr (dict_set sec ''text'' (Lst (ls @ [line])))
         | Some (Str s) \<Rightarrow> Inl AttributeError))"

fun store_lines :: "section_dict \<Rightarrow> string list \<Rightarrow> py_error + section_dict" where
  "store_lines sec [] = Inr sec"
| "store_lines sec (line # ls) =
     (case store_line sec line of Inl e \<Rightarrow> Inl e | Inr sec' \<Rightarrow> store_lines sec' ls)"

definition is_heading :: "node \<Rightarrow> bool" where
  "is_heading n = (''acnheading'' \<in> set (node_class n))"

definition is_section :: "node \<Rightarrow> bool" where
  "is_section n = (''acnsection'' \<in> set (node_class n))"

definition is_data :: "node \<Rightarrow> bool" where
  "is_data n = (''acndata'' \<in> set (node_class n))"

definition section_of :: "node \<Rightarrow> string" where
  "section_of n = rstrip_chars '':'' (node_text n)"

text \<open>
  The loop over \<open>heading.find_next_siblings("p")\<close>; the state is the record and
  \<open>section_name\<close>. An empty \<open>section_name\<close> is falsy, like \<open>None\<close>. Under a
  non-empty \<open>section_name\<close> the record holds the dictionary that the marker stored, so
  the branches \<open>KeyError\<close> and \<open>TypeError\<close> of the lookup are never taken.
\<close>

fun walk :: "(string \<Rightarrow> string) \<Rightarrow> incident \<Rightarrow> string option \<Rightarrow> node list \<Rightarrow> py_error + incident" where
  "walk gt r sn [] = Inr r"
| "walk gt r sn (sib # sibs) =
     (if is_heading sib then Inr r
      else if is_section sib then
        walk gt (dict_set r (section_of sib) (Sec [])) (Some (section_of sib)) sibs
      else if is_data sib \<and> sn \<noteq> None \<and> sn \<noteq> Some [] then
        (case dict_get r (the sn) of
           None \<Rightarrow> Inl KeyError
         | Some (Ident s) \<Rightarrow> Inl TypeError
         | Some (Sec sec) \<Rightarrow>
             (case store_lines sec (parse_acndata_block gt (node_contents sib)) of
                Inl e \<Rightarrow> Inl e
              | Inr sec' \<Rightarrow> walk gt (dict_set r (the sn) (Sec sec')) sn sibs))
      else walk gt r sn sibs)"

text \<open>The heading: the identifier is stored only when the text has a colon.\<close>

definition heading_record :: "string \<Rightarrow> py_error + incident" where
  "heading_record acn_text =
     (if contains '':'' acn_text then
        (case split_once '':'' acn_text of
           [a, b] \<Rightarrow> (case split_ws b of
                        [] \<Rightarrow> Inl IndexError
                      | w # ws \<Rightarrow> Inr [(''ACN'', Ident w)])
         | _ \<Rightarrow> Inl IndexError)
      else Inr [])"

text \<open>Flattening: \<^verbatim>\<open>"\n".join(sec["text"])\<close> for every section that has the key.\<close>

definition flatten_value :: "field_value \<Rightarrow> field_value" where
  "flatten_value v = (case v of Lst ls \<Rightarrow> Str (join [CHR 0x0A] ls)
                              | Str s \<Rightarrow> Str (join_chars [CHR 0x0A] s))"

definition flatten_section :: "section_dict \<Rightarrow> section_dict" where
  "flatten_section sec =
     (case dict_get sec ''text'' of
        None \<Rightarrow> sec
      | Some v \<Rightarrow> dict_set sec ''text'' (flatten_value v))"

definition flatten_entry :: "entry \<Rightarrow> entry" where
  "flatten_entry e = (case e of Sec sec \<Rightarrow> Sec (flatten_section sec) | Ident s \<Rightarrow> Ident s)"

definition flatten :: "incident \<Rightarrow> incident" where
  "flatten r = map (\<lambda>(k, e). (k, flatten_entry e)) r"

definition extract_record :: "(string \<Rightarrow> string) \<Rightarrow> node \<Rightarrow> node list \<Rightarrow> py_error + incident" where
  "extract_record gt heading sibs =
     (case heading_record (node_text heading) of
        Inl e \<Rightarrow> Inl e
      | Inr r0 \<Rightarrow> (case walk gt r0 None sibs of
                     Inl e \<Rightarrow> Inl e
                   | Inr r \<Rightarrow> Inr (flatten r)))"

fun extract_records :: "(string \<Rightarrow> string) \<Rightarrow> node list \<Rightarrow> py_error + incident list" where
  "extract_records gt [] = Inr []"
| "extract_records gt (n # ns) =
     (if is_heading n then
        (case extract_record gt n ns of
           Inl e \<Rightarrow> Inl e
         | Inr r \<Rightarrow> (case extract_records gt ns of
                       Inl e \<Rightarrow> Inl e
                     | Inr rs \<Rightarrow> Inr (r # rs)))
      else extract_records gt ns)"

text \<open>
  A model of the library call on one raw line, for concrete inputs: the text runs
  between tags, each stripped, the empty ones dropped, joined by one space. It is the
  library's result for lines in which every \<open><\<close> opens a tag that a \<open>>\<close> closes and which
  hold no character reference and no comment.
\<close>

fun text_runs :: "bool \<Rightarrow> string \<Rightarrow> string \<Rightarrow> string list" where
  "text_runs in_tag acc [] = [rev acc]"
| "text_runs in_tag acc (c # cs) =
     (if in_tag then (if c = CHR ''>'' then text_runs False [] cs else text_runs True acc cs)
      else if c = CHR ''<'' then rev acc # text_runs True [] cs
      else text_runs False (c # acc) cs)"

definition plain_text :: "string \<Rightarrow> string" where
  "plain_text s = join '' '' (filter (\<lambda>t. t \<noteq> []) (map strip (text_runs False [] s)))"

text \<open>
  A model of \<^verbatim>\<open>decode_contents()\<close> on a paragraph whose inner markup is written \<open>s\<close> in
  the document, for concrete inputs: the library writes a break element, \<open><br>\<close> in the
  document, as \<open><br/>\<close>, and writes the text and the paired tags of these inputs back as
  they are.
\<close>

definition decode_contents :: "string \<Rightarrow> string" where
  "decode_contents s = join ''<br/>'' (split_sep ''<br>'' s)"

text \<open>A paragraph of the document with one class and the inner markup \<open>s\<close>.\<close>

definition para :: "string \<Rightarrow> string \<Rightarrow> node" where
  "para c s = \<lparr>node_class = [c], node_text = plain_text s, node_contents = decode_contents s\<rparr>"

section \<open>Reading the lines of a section\<close>

text \<open>
  A line with the separator \<open>" : "\<close> is a key/value line: the trimmed text before the first
  separator is its label, the trimmed text after it its value. Every other line is
  narrative.
\<close>

definition kv_of :: "string \<Rightarrow> (string \<times> string) option" where
  "kv_of line = (case split_at_first '' : '' line of
                   None \<Rightarrow> None
                 | Some (a, b) \<Rightarrow> Some (strip a, strip b))"

definition label_values :: "string \<Rightarrow> string list \<Rightarrow> string list" where
  "label_values k ls = map snd (filter (\<lambda>kv. fst kv = k) (List.map_filter kv_of ls))"

definition narrative_lines :: "string list \<Rightarrow> string list" where
  "narrative_lines ls = filter (\<lambda>l. kv_of l = None) ls"

text \<open>What the key/value branch stores, by the value held before.\<close>

fun promote :: "field_value option \<Rightarrow> string \<Rightarrow> field_value" where
  "promote None v = Str v"
| "promote (Some (Str p)) v = Lst [p, v]"
| "promote (Some (Lst ps)) v = Lst (ps @ [v])"

text \<open>The same over the successive values of one label.\<close>

fun promote_all :: "field_value option \<Rightarrow> string list \<Rightarrow> field_value option" where
  "promote_all cur [] = cur"
| "promote_all cur (v # vs) = promote_all (Some (promote cur v)) vs"

text \<open>
  Two records agree for a key \<open>k\<close> during the walk when they hold the same under \<open>k\<close> and
  under the current section name.
\<close>

definition agree :: "incident \<Rightarrow> incident \<Rightarrow> string option \<Rightarrow> string \<Rightarrow> bool" where
  "agree r1 r2 sn k = (dict_get r1 k = dict_get r2 k \<and>
      (\<forall>c. sn = Some c \<longrightarrow> c \<noteq> [] \<longrightarrow> dict_get r1 c = dict_get r2 c))"

text \<open>The lines of the data blocks among \<open>blocks\<close>, in document order.\<close>

definition span_lines :: "(string \<Rightarrow> string) \<Rightarrow> node list \<Rightarrow> string list" where
  "span_lines gt blocks =
     concat (map (\<lambda>b. parse_acndata_block gt (node_contents b)) (filter is_data blocks))"

text \<open>
  The siblings of a heading, cut at a section marker \<open>m\<close> with a non-empty name: \<open>pre\<close>
  comes before it (and holds no heading), \<open>blocks\<close> are the nodes up to the next section
  marker or heading, and \<open>rest\<close> is what follows; up to the next heading \<open>rest\<close> has no
  marker of the same name, so that \<open>m\<close> is the last marker of its name in the record.
\<close>

definition section_span :: "node list \<Rightarrow> node \<Rightarrow> node list \<Rightarrow> node list \<Rightarrow> bool" where
  "section_span pre m blocks rest =
     ((\<forall>n\<in>set pre. \<not> is_heading n) \<and>
      is_section m \<and> \<not> is_heading m \<and> section_of m \<noteq> [] \<and>
      (\<forall>b\<in>set blocks. \<not> is_heading b \<and> \<not> is_section b) \<and>
      (rest = [] \<or> is_heading (hd rest) \<or> is_section (hd rest)) \<and>
      (\<forall>n\<in>set (takeWhile (\<lambda>n. \<not> is_heading n) rest).
          is_section n \<longrightarrow> section_of n \<noteq> section_of m))"

section \<open>The batch classifier (process_asrs_hfacs.py)\<close>

text \<open>
  JSON values as \<^verbatim>\<open>json.load\<close> returns them; numbers are taken as integers. An incident
  is a JSON object.
\<close>

datatype json = JNull | JBool bool | JNum int | JStr string | JArr "json list"
  | JObj "(string \<times> json) list"

type_synonym jobject = "(string \<times> json) list"

text \<open>Python's truth value of a JSON value (\<^verbatim>\<open>not narrative\<close>).\<close>

fun truthy :: "json \<Rightarrow> bool" where
  "truthy JNull = False"
| "truthy (JBool b) = b"
| "truthy (JNum n) = (n \<noteq> 0)"
| "truthy (JStr s) = (s \<noteq> [])"
| "truthy (JArr xs) = (xs \<noteq> [])"
| "truthy (JObj d) = (d \<noteq> [])"

fun is_str :: "json \<Rightarrow> bool" where
  "is_str (JStr s) = True"
| "is_str _ = False"

fun str_of :: "json \<Rightarrow> string" where
  "str_of (JStr s) = s"
| "str_of _ = []"

text \<open>
  The narrative of the target incident (lines 399 to 407): the \<open>text\<close> of the field when
  the field is an object, the field itself when it is a string, the empty string
  otherwise; a list is joined by newlines, which raises TypeError on an item that is
  not a string.
\<close>

definition narrative_of :: "jobject \<Rightarrow> string \<Rightarrow> py_error + json" where
  "narrative_of target field =
     (let narrative =
        (case dict_get target field of
           Some (JObj d) \<Rightarrow> (case dict_get d ''text'' of Some v \<Rightarrow> v | None \<Rightarrow> JStr [])
         | Some (JStr s) \<Rightarrow> JStr s
         | _ \<Rightarrow> JStr [])
      in case narrative of
           JArr xs \<Rightarrow> if list_all is_str xs then Inr (JStr (join [CHR 0x0A] (map str_of xs)))
                      else Inl TypeError
         | v \<Rightarrow> Inr v)"

text \<open>
  \<^verbatim>\<open>not narrative or not narrative.strip()\<close>: a truthy value that is not a string has no
  \<open>strip\<close>.
\<close>

definition blank :: "json \<Rightarrow> py_error + bool" where
  "blank v = (if \<not> truthy v then Inr True
              else case v of JStr s \<Rightarrow> Inr (strip s = []) | _ \<Rightarrow> Inl AttributeError)"

text \<open>
  What \<^verbatim>\<open>client.responses.create\<close> does: it raises, or it returns a response, of which the
  code reads the output tokens of the usage (when there is one) and the output text.
\<close>

datatype reply = Raised_API string | Raised_JSON | Raised_other string
  | Returned "nat option" string

text \<open>
  What \<^verbatim>\<open>json.loads\<close> does on a text: it returns the value, raises JSONDecodeError, or
  raises another exception (RecursionError on deeply nested brackets), of which the
  handler reads the message.
\<close>

datatype loads_result = Parsed json | Decode_error | Loads_raised string

text \<open>
  The surroundings of a run: the service (its answer to the n-th call of the run, by
  the prompt), \<^verbatim>\<open>json.loads\<close>, the tokenizer (\<open>None\<close> when it raises) and the prompt
  template, as the text before and after the narrative.
\<close>

record env =
  service :: "nat \<Rightarrow> string \<Rightarrow> reply"
  json_loads :: "string \<Rightarrow> loads_result"
  count_tokens :: "string \<Rightarrow> nat option"
  template :: "string \<times> string"

definition full_prompt :: "env \<Rightarrow> string \<Rightarrow> string" where
  "full_prompt e narrative_text = fst (template e) @ narrative_text @ snd (template e)"

definition fence :: string where
  "fence = [CHR 0x60, CHR 0x60, CHR 0x60]"

text \<open>Lines 257 to 260: a fenced answer is unwrapped.\<close>

definition strip_fences :: "string \<Rightarrow> py_error + string" where
  "strip_fences t =
     (if startswith (strip t) (fence @ ''json'') then
        (case split_sep (fence @ ''json'') t of
           a # x # xs \<Rightarrow> (case split_sep fence x of
                            y # ys \<Rightarrow> Inr (strip y)
                          | [] \<Rightarrow> Inl IndexError)
         | _ \<Rightarrow> Inl IndexError)
      else if startswith (strip t) fence then
        (case split_sep fence t of
           a # x # xs \<Rightarrow> Inr (strip x)
         | _ \<Rightarrow> Inl IndexError)
      else Inr t)"

definition error_obj :: "string \<Rightarrow> json" where
  "error_obj msg = JObj [(''error'', JStr msg)]"

definition error_raw :: "string \<Rightarrow> string \<Rightarrow> json" where
  "error_raw msg raw = JObj [(''error'', JStr msg), (''raw_output'', JStr raw)]"

text \<open>
  Lines 246 to 276: the classification and the output tokens for a reply. Every
  exception raised inside the \<open>try\<close> is caught by one of the three handlers.
\<close>

definition interpret_reply :: "(string \<Rightarrow> loads_result) \<Rightarrow> reply \<Rightarrow> json list \<times> nat" where
  "interpret_reply loads r =
     (case r of
        Raised_API msg \<Rightarrow> ([error_obj (''OpenAI API Error: '' @ msg)], 0)
      | Raised_JSON \<Rightarrow> ([error_raw ''Failed to parse LLM JSON response'' ''N/A''], 0)
      | Raised_other msg \<Rightarrow> ([error_obj (''Unexpected error: '' @ msg)], 0)
      | Returned usage output_text \<Rightarrow>
          (let out = (case usage of Some n \<Rightarrow> n | None \<Rightarrow> 0) in
           case strip_fences output_text of
             Inl e \<Rightarrow> ([error_obj ''Unexpected error: list index out of range''], out)
           | Inr t \<Rightarrow>
               (case loads t of
                  Decode_error \<Rightarrow> ([error_raw ''Failed to parse LLM JSON response'' t], out)
                | Loads_raised msg \<Rightarrow> ([error_obj (''Unexpected error: '' @ msg)], out)
                | Parsed (JArr xs) \<Rightarrow> (xs, out)
                | Parsed v \<Rightarrow> ([error_raw ''LLM did not return a list'' t], out))))"

text \<open>
  \<open>get_hfacs_classification_from_llm\<close>. The state is the list of the prompts sent so
  far; the result is the classification with the input and output token counts.
\<close>

definition get_hfacs_classification_from_llm ::
  "env \<Rightarrow> string list \<Rightarrow> string \<Rightarrow> py_error + ((json list \<times> nat \<times> nat) \<times> string list)" where
  "get_hfacs_classification_from_llm e sent narrative_text =
     (if narrative_text = [] \<or> strip narrative_text = [] then Inr (([], 0, 0), sent)
      else
        (case count_tokens e (full_prompt e narrative_text) of
           None \<Rightarrow> Inl ValueError
         | Some n \<Rightarrow>
             (case interpret_reply (json_loads e)
                     (service e (length sent) (full_prompt e narrative_text)) of
                (cls, out) \<Rightarrow> Inr ((cls, n, out), sent @ [full_prompt e narrative_text]))))"

text \<open>Lines 399 to 418: one incident of the master list is classified.\<close>

definition process_incident ::
  "env \<Rightarrow> string \<Rightarrow> jobject \<Rightarrow> string list \<Rightarrow> py_error + (jobject \<times> string list)" where
  "process_incident e field target sent =
     (case narrative_of target field of
        Inl err \<Rightarrow> Inl err
      | Inr narrative \<Rightarrow>
          (case blank narrative of
             Inl err \<Rightarrow> Inl err
           | Inr True \<Rightarrow> Inr (dict_set target ''hfacs_classification'' (JArr []), sent)
           | Inr False \<Rightarrow>
               (case get_hfacs_classification_from_llm e sent (str_of narrative) of
                  Inl err \<Rightarrow> Inl err
                | Inr ((cls, n, out), sent') \<Rightarrow>
                    Inr (dict_set target ''hfacs_classification'' (JArr cls), sent'))))"

text \<open>
  Lines 367 to 374. The lookup table is a dict keyed by the \<open>ACN\<close> values: lists and
  objects are unhashable, and \<open>True\<close> and \<open>False\<close> are the keys 1 and 0.
\<close>

definition has_acn :: "jobject list \<Rightarrow> bool" where
  "has_acn all_incidents_data = list_all (\<lambda>incident. dict_get incident ''ACN'' \<noteq> None) all_incidents_data"

fun hashable :: "json \<Rightarrow> bool" where
  "hashable (JArr xs) = False"
| "hashable (JObj d) = False"
| "hashable _ = True"

fun norm_key :: "json \<Rightarrow> json" where
  "norm_key (JBool b) = JNum (if b then 1 else 0)"
| "norm_key v = v"

fun build_map :: "nat \<Rightarrow> jobject list \<Rightarrow> (json \<times> nat) list \<Rightarrow> py_error + (json \<times> nat) list" where
  "build_map idx [] incident_map = Inr incident_map"
| "build_map idx (incident # rest) incident_map =
     (case dict_get incident ''ACN'' of
        None \<Rightarrow> Inl KeyError
      | Some a \<Rightarrow> if hashable a then build_map (Suc idx) rest (dict_set incident_map (norm_key a) idx)
                  else Inl TypeError)"

text \<open>
  Lines 388 to 396: the index in the master list of the incident to update, or \<open>None\<close>
  when the incident is skipped.
\<close>

definition find_target ::
  "bool \<Rightarrow> (json \<times> nat) list \<Rightarrow> nat \<Rightarrow> nat \<Rightarrow> jobject \<Rightarrow> py_error + nat option" where
  "find_target hasacn incident_map n original_incident_idx incident_from_slice =
     (if hasacn then
        (let a = (case dict_get incident_from_slice ''ACN'' of Some v \<Rightarrow> v | None \<Rightarrow> JNull) in
         if \<not> hashable a then Inl TypeError
         else case dict_get incident_map (norm_key a) of
                None \<Rightarrow> Inr None
              | Some i \<Rightarrow> (case dict_get incident_from_slice ''ACN'' of
                            None \<Rightarrow> Inl KeyError
                          | Some v \<Rightarrow> Inr (Some i)))
      else if original_incident_idx < n then Inr (Some original_incident_idx)
      else Inr None)"

text \<open>
  The loop of lines 380 to 426 over the slice. An uncaught exception ends the run: the
  output file then holds the last checkpoint, which this model does not follow.
\<close>

fun process_loop ::
  "env \<Rightarrow> string \<Rightarrow> bool \<Rightarrow> (json \<times> nat) list \<Rightarrow> nat \<Rightarrow> jobject list \<Rightarrow>
     jobject list \<Rightarrow> string list \<Rightarrow> py_error + (jobject list \<times> string list)" where
  "process_loop e field hasacn imap idx [] data sent = Inr (data, sent)"
| "process_loop e field hasacn imap idx (item # items) data sent =
     (case find_target hasacn imap (length data) idx item of
        Inl err \<Rightarrow> Inl err
      | Inr None \<Rightarrow> process_loop e field hasacn imap (Suc idx) items data sent
      | Inr (Some t) \<Rightarrow>
          if t < length data then
            (case process_incident e field (data ! t) sent of
               Inl err \<Rightarrow> Inl err
             | Inr (target, sent') \<Rightarrow>
                 process_loop e field hasacn imap (Suc idx) items (data[t := target]) sent')
          else Inl IndexError)"

text \<open>
  Lines 308 to 316: the range of a run over \<open>total_incidents\<close> incidents; \<open>None\<close> when the start
  index is out of bounds and the run ends without writing.
\<close>

definition select_range :: "nat \<Rightarrow> int \<Rightarrow> int option \<Rightarrow> (nat \<times> nat) option" where
  "select_range total_incidents start_index end_index =
     (let end_idx = (case end_index of Some i \<Rightarrow> i | None \<Rightarrow> int total_incidents) in
      if \<not> (0 \<le> start_index \<and> start_index < int total_incidents) then None
      else if end_idx \<le> start_index \<or> end_idx > int total_incidents then Some (nat start_index, total_incidents)
      else Some (nat start_index, nat end_idx))"

text \<open>
  Lines 356 to 431, once the range is chosen and the user has confirmed: the master
  list is the existing output file when there is one (an empty one makes
  \<open>load_incidents\<close> exit), the input otherwise; the result is the list that is saved.
\<close>

definition run_batch ::
  "env \<Rightarrow> string \<Rightarrow> jobject list \<Rightarrow> jobject list option \<Rightarrow> nat \<Rightarrow> nat \<Rightarrow>
     py_error + (jobject list \<times> string list)" where
  "run_batch e field incidents existing start_idx end_idx =
     (case existing of
        Some [] \<Rightarrow> Inl SystemExit
      | _ \<Rightarrow>
        (let all_incidents_data = (case existing of Some d \<Rightarrow> d | None \<Rightarrow> incidents);
             incidents_to_process_list = take (end_idx - start_idx) (drop start_idx incidents);
             hasacn = has_acn all_incidents_data
         in case (if hasacn then build_map 0 all_incidents_data [] else Inr []) of
              Inl err \<Rightarrow> Inl err
            | Inr imap \<Rightarrow>
                process_loop e field hasacn imap start_idx incidents_to_process_list
                  all_incidents_data []))"



text \<open>
  A stand-in for the surroundings, for concrete runs: the service answers with the
  prompt it was sent, and every text parses as the one-element list holding it.
\<close>

definition echo_env :: env where
  "echo_env = \<lparr>service = (\<lambda>n p. Returned None p),
               json_loads = (\<lambda>s. Parsed (JArr [JStr s])),
               count_tokens = (\<lambda>s. Some (length s)),
               template = (''Classify: '', [])\<rparr>"

text \<open>The keys under which the lookup table files the incidents.\<close>

definition acn_keys :: "jobject list \<Rightarrow> json list" where
  "acn_keys incidents =
     map (\<lambda>incident. norm_key (case dict_get incident ''ACN'' of Some v \<Rightarrow> v | None \<Rightarrow> JNull))
       incidents"

text \<open>Three incidents as the extractor writes them, for concrete runs.\<close>

definition three_incidents :: "jobject list" where
  "three_incidents =
     [[(''ACN'', JStr ''101''), (''Narrative: 1'', JObj [(''text'', JStr ''Runway incursion.'')])],
      [(''ACN'', JStr ''102''), (''Narrative: 1'', JObj [(''text'', JStr ''Altitude deviation.'')])],
      [(''ACN'', JStr ''103''), (''Narrative: 1'', JObj [(''text'', JStr ''Fuel imbalance.'')])]]"

text \<open>Two incidents that bear the same identifier.\<close>

definition twin_incidents :: "jobject list" where
  "twin_incidents =
     [[(''ACN'', JStr ''7''), (''Narrative: 1'', JObj [(''text'', JStr ''Gear problem.'')])],
      [(''ACN'', JStr ''7''), (''Narrative: 1'', JObj [(''text'', JStr ''Bird strike.'')])]]"

definition again_env :: env where
  "again_env = echo_env\<lparr>template := (''Again: '', [])\<rparr>"

text \<open>The output of a run of \<open>echo_env\<close> over the first two of the three incidents.\<close>

definition first_output :: "jobject list" where
  "first_output =
     [[(''ACN'', JStr ''101''), (''Narrative: 1'', JObj [(''text'', JStr ''Runway incursion.'')]),
       (''hfacs_classification'', JArr [JStr ''Classify: Runway incursion.''])],
      [(''ACN'', JStr ''102''), (''Narrative: 1'', JObj [(''text'', JStr ''Altitude deviation.'')]),
       (''hfacs_classification'', JArr [JStr ''Classify: Altitude deviation.''])],
      [(''ACN'', JStr ''103''), (''Narrative: 1'', JObj [(''text'', JStr ''Fuel imbalance.'')])]]"

text \<open>The output of a second run, of \<open>again_env\<close>, over the last two.\<close>

definition second_output :: "jobject list" where
  "second_output =
     [[(''ACN'', JStr ''101''), (''Narrative: 1'', JObj [(''text'', JStr ''Runway incursion.'')]),
       (''hfacs_classification'', JArr [JStr ''Classify: Runway incursion.''])],
      [(''ACN'', JStr ''102''), (''Narrative: 1'', JObj [(''text'', JStr ''Altitude deviation.'')]),
       (''hfacs_classification'', JArr [JStr ''Again: Altitude deviation.''])],
      [(''ACN'', JStr ''103''), (''Narrative: 1'', JObj [(''text'', JStr ''Fuel imbalance.'')]),
       (''hfacs_classification'', JArr [JStr ''Again: Fuel imbalance.''])]]"

section \<open>Facts about the string and dictionary operations\<close>

lemma map_of_dict_set: "map_of (dict_set d k v) = (map_of d)(k \<mapsto> v)"
  by (induction d k v rule: dict_set.induct) auto

lemma dict_get_dict_set: "dict_get (dict_set d k v) k' = (if k' = k then Some v else dict_get d k')"
  by (simp add: map_of_dict_set)

lemma dict_set_twice: "dict_set (dict_set d k v) k v' = dict_set d k v'"
  by (induction d k v rule: dict_set.induct) auto

lemma dict_set_same: "dict_get d k = Some v \<Longrightarrow> dict_set d k v = d"
  by (induction d k v rule: dict_set.induct) (auto split: if_splits)

lemma split_at_first_parts:
  "split_at_first sep s = Some (a, b) \<Longrightarrow> s = a @ sep @ b"
proof (induction s arbitrary: a)
  case Nil
  then show ?case by (simp split: if_splits)
next
  case (Cons c cs)
  show ?case
  proof (cases "prefix sep (c # cs)")
    case True
    then obtain zs where zs: "c # cs = sep @ zs" by (auto simp: prefix_def)
    from True Cons.prems have "a = []" "b = drop (length sep) (c # cs)" by auto
    then show ?thesis by (simp add: zs)
  next
    case False
    with Cons.prems obtain a' where a': "split_at_first sep cs = Some (a', b)" "a = c # a'"
      by (auto split: prod.splits)
    from Cons.IH [OF a'(1)] a'(2) show ?thesis by simp
  qed
qed

lemma split_at_first_single_notin:
  "split_at_first [x] s = Some (a, b) \<Longrightarrow> x \<notin> set a"
proof (induction s arbitrary: a)
  case Nil
  then show ?case by simp
next
  case (Cons c cs)
  show ?case
  proof (cases "c = x")
    case True
    with Cons.prems show ?thesis by auto
  next
    case False
    with Cons.prems obtain a' where a': "split_at_first [x] cs = Some (a', b)" "a = c # a'"
      by (auto split: prod.splits)
    from Cons.IH [OF a'(1)] a'(2) False show ?thesis by auto
  qed
qed

lemma contains_single: "contains [x] s = (x \<in> set s)"
  unfolding contains_def by (induction s) auto

lemma split_ws_first:
  "split_ws s = w # ws \<Longrightarrow>
     \<exists>sp rest. s = sp @ w @ rest \<and> (\<forall>c\<in>set sp. is_space c) \<and> w \<noteq> [] \<and>
       (\<forall>c\<in>set w. \<not> is_space c) \<and> (rest = [] \<or> is_space (hd rest))"
proof -
  assume a: "split_ws s = w # ws"
  let ?t = "dropWhile is_space s"
  from a have ne: "?t \<noteq> []" and w: "w = takeWhile (\<lambda>c. \<not> is_space c) ?t"
    by (auto simp: split_ws.simps [of s] Let_def split: if_splits)
  let ?rest = "dropWhile (\<lambda>c. \<not> is_space c) ?t"
  have s: "s = takeWhile is_space s @ w @ ?rest"
    using w by simp
  have "\<not> is_space (hd ?t)" using hd_dropWhile [of is_space s] ne by simp
  then have "w \<noteq> []" using w ne by (cases ?t) auto
  moreover have "\<forall>c\<in>set w. \<not> is_space c" using w by (auto dest: set_takeWhileD)
  moreover have "\<forall>c\<in>set (takeWhile is_space s). is_space c" by (auto dest: set_takeWhileD)
  moreover have "?rest = [] \<or> is_space (hd ?rest)"
    using hd_dropWhile [of "\<lambda>c. \<not> is_space c" ?t] by auto
  ultimately show ?thesis using s by blast
qed

lemma split_ws_empty: "split_ws s = [] \<longleftrightarrow> (\<forall>c\<in>set s. is_space c)"
  by (auto simp: split_ws.simps [of s] Let_def dropWhile_eq_Nil_conv)

lemma strip_empty: "strip s = [] \<longleftrightarrow> (\<forall>c\<in>set s. is_space c)"
proof
  assume "strip s = []"
  then have all: "\<forall>x\<in>set (dropWhile is_space s). is_space x"
    by (simp add: strip_def)
  have "dropWhile is_space s = []"
  proof (rule ccontr)
    assume ne: "dropWhile is_space s \<noteq> []"
    then have "\<not> is_space (hd (dropWhile is_space s))"
      using hd_dropWhile [of is_space s] by simp
    moreover have "hd (dropWhile is_space s) \<in> set (dropWhile is_space s)"
      using ne by simp
    ultimately show False using all by blast
  qed
  then show "\<forall>c\<in>set s. is_space c" by simp
next
  assume "\<forall>c\<in>set s. is_space c"
  then have d: "dropWhile is_space s = []" by simp
  show "strip s = []" unfolding strip_def d by simp
qed

section \<open>The walk over the siblings of a heading\<close>

lemma store_lines_append:
  "store_lines sec (a @ b) = (case store_lines sec a of Inl e \<Rightarrow> Inl e | Inr s \<Rightarrow> store_lines s b)"
  by (induction a arbitrary: sec) (auto split: sum.splits)

lemma walk_cut:
  "\<forall>n\<in>set sibs. \<not> is_heading n \<Longrightarrow> rest = [] \<or> is_heading (hd rest) \<Longrightarrow>
     walk gt r sn (sibs @ rest) = walk gt r sn sibs"
proof (induction sibs arbitrary: r sn)
  case Nil
  then show ?case by (cases rest) auto
next
  case (Cons a sibs)
  then show ?case by (auto split: option.splits entry.splits sum.splits)
qed

text \<open>Walking up to a section marker: what was collected before it only matters through the record.\<close>

lemma walk_to_marker:
  "\<forall>n\<in>set pre. \<not> is_heading n \<Longrightarrow> is_section m \<Longrightarrow> \<not> is_heading m \<Longrightarrow>
     walk gt r sn (pre @ m # post) = Inr res \<Longrightarrow>
     \<exists>r1. walk gt (dict_set r1 (section_of m) (Sec [])) (Some (section_of m)) post = Inr res"
proof (induction pre arbitrary: r sn)
  case Nil
  then show ?case by auto
next
  case (Cons a pre)
  then show ?case by (auto split: if_splits option.splits entry.splits sum.splits)
qed

lemma walk_agree:
  "agree r1 r2 sn k \<Longrightarrow> walk gt r1 sn post = Inr res1 \<Longrightarrow>
     \<exists>res2. walk gt r2 sn post = Inr res2 \<and> dict_get res1 k = dict_get res2 k"
proof (induction post arbitrary: r1 r2 sn)
  case Nil
  then show ?case by (simp add: agree_def)
next
  case (Cons a post)
  show ?case
  proof (cases "is_heading a")
    case True
    with Cons.prems show ?thesis by (simp add: agree_def)
  next
    case nh: False
    show ?thesis
    proof (cases "is_section a")
      case True
      have "agree (dict_set r1 (section_of a) (Sec [])) (dict_set r2 (section_of a) (Sec []))
              (Some (section_of a)) k"
        using Cons.prems(1) by (simp add: agree_def dict_get_dict_set)
      from Cons.IH [OF this] Cons.prems(2) nh True show ?thesis by simp
    next
      case ns: False
      show ?thesis
      proof (cases "is_data a \<and> sn \<noteq> None \<and> sn \<noteq> Some []")
        case True
        then obtain c where c: "sn = Some c" "c \<noteq> []" by auto
        with Cons.prems(1) have eq: "dict_get r1 c = dict_get r2 c" by (simp add: agree_def)
        from Cons.prems(2) nh ns True c obtain sec sec' where
          s: "dict_get r1 c = Some (Sec sec)"
             "store_lines sec (parse_acndata_block gt (node_contents a)) = Inr sec'"
             "walk gt (dict_set r1 c (Sec sec')) sn post = Inr res1"
          by (auto split: option.splits entry.splits sum.splits)
        have "agree (dict_set r1 c (Sec sec')) (dict_set r2 c (Sec sec')) sn k"
          using Cons.prems(1) c by (simp add: agree_def dict_get_dict_set)
        from Cons.IH [OF this s(3)] obtain res2 where
          "walk gt (dict_set r2 c (Sec sec')) sn post = Inr res2" "dict_get res1 k = dict_get res2 k"
          by blast
        then show ?thesis using nh ns True c s eq by auto
      next
        case False
        with Cons.IH [OF Cons.prems(1)] Cons.prems(2) nh ns show ?thesis by auto
      qed
    qed
  qed
qed

lemma dict_get_flatten: "dict_get (flatten r) k = map_option flatten_entry (dict_get r k)"
  unfolding flatten_def by (induction r) auto

section \<open>The lines stored in a section\<close>

lemma contains_kv: "contains '' : '' line = (kv_of line \<noteq> None)"
  by (auto simp: contains_def kv_of_def split: option.splits)

lemma store_line_kv:
  "kv_of line = Some (k, v) \<Longrightarrow> store_line sec line = Inr (store_kv sec k v)"
  by (auto simp: store_line_def kv_of_def contains_def split_once_def split: option.splits)

lemma store_line_narrative:
  "kv_of line = None \<Longrightarrow>
     store_line sec line =
       (case dict_get sec ''text'' of
          None \<Rightarrow> Inr (dict_set sec ''text'' (Lst [line]))
        | Some (Lst ls) \<Rightarrow> Inr (dict_set sec ''text'' (Lst (ls @ [line])))
        | Some (Str s) \<Rightarrow> Inl AttributeError)"
  by (auto simp: store_line_def kv_of_def contains_def split: option.splits)

lemma dict_get_store_kv:
  "dict_get (store_kv sec k v) k' = (if k' = k then Some (promote (dict_get sec k) v) else dict_get sec k')"
  by (auto simp: store_kv_def dict_get_dict_set split: option.splits field_value.splits)

lemma store_line_other_key:
  "store_line sec line = Inr sec' \<Longrightarrow> k \<noteq> ''text'' \<Longrightarrow>
     dict_get sec' k = (case kv_of line of
                          Some (k', v) \<Rightarrow> if k' = k then Some (promote (dict_get sec k) v) else dict_get sec k
                        | None \<Rightarrow> dict_get sec k)"
proof (cases "kv_of line")
  case None
  assume "store_line sec line = Inr sec'" "k \<noteq> ''text''"
  then show ?thesis using None
    by (auto simp: store_line_narrative dict_get_dict_set split: option.splits field_value.splits)
next
  case (Some kv)
  assume "store_line sec line = Inr sec'" "k \<noteq> ''text''"
  then show ?thesis using Some
    by (cases kv) (auto simp: store_line_kv dict_get_store_kv)
qed

lemma label_values_Cons:
  "label_values k (l # ls) =
     (case kv_of l of Some (k', v) \<Rightarrow> if k' = k then v # label_values k ls else label_values k ls
                    | None \<Rightarrow> label_values k ls)"
  by (auto simp: label_values_def List.map_filter_simps split: option.splits)

lemma label_values_Nil: "label_values k [] = []"
  by (simp add: label_values_def List.map_filter_simps)

lemma store_lines_other_key:
  "store_lines sec ls = Inr sec' \<Longrightarrow> k \<noteq> ''text'' \<Longrightarrow>
     dict_get sec' k = promote_all (dict_get sec k) (label_values k ls)"
proof (induction ls arbitrary: sec)
  case Nil
  then show ?case by (simp add: label_values_Nil)
next
  case (Cons l ls)
  from Cons.prems(1) obtain s1 where s1: "store_line sec l = Inr s1" "store_lines s1 ls = Inr sec'"
    by (auto split: sum.splits)
  from Cons.IH [OF s1(2) Cons.prems(2)] store_line_other_key [OF s1(1) Cons.prems(2)]
  show ?case by (auto simp: label_values_Cons split: option.splits)
qed

lemma promote_all_Lst: "promote_all (Some (Lst ps)) vs = Some (Lst (ps @ vs))"
  by (induction vs arbitrary: ps) auto

lemma promote_all_None:
  "promote_all None vs = (case vs of [] \<Rightarrow> None | [v] \<Rightarrow> Some (Str v) | _ \<Rightarrow> Some (Lst vs))"
proof (cases vs)
  case Nil
  then show ?thesis by simp
next
  case (Cons v ws)
  then show ?thesis by (cases ws) (auto simp: promote_all_Lst)
qed

section \<open>The span of a section marker\<close>

lemma narrative_lines_Cons:
  "narrative_lines (l # ls) = (if kv_of l = None then l # narrative_lines ls else narrative_lines ls)"
  by (simp add: narrative_lines_def)

text \<open>Without a key/value line labelled \<open>text\<close>, the line loop never raises.\<close>

lemma store_lines_text:
  "label_values ''text'' ls = [] \<Longrightarrow> dict_get sec ''text'' = None \<or> (\<exists>xs. dict_get sec ''text'' = Some (Lst xs)) \<Longrightarrow>
     \<exists>sec'. store_lines sec ls = Inr sec' \<and>
       dict_get sec' ''text'' =
         (if narrative_lines ls = [] then dict_get sec ''text''
          else Some (Lst ((case dict_get sec ''text'' of Some (Lst xs) \<Rightarrow> xs | _ \<Rightarrow> []) @ narrative_lines ls)))"
proof (induction ls arbitrary: sec)
  case Nil
  then show ?case by (simp add: narrative_lines_def)
next
  case (Cons l ls)
  show ?case
  proof (cases "kv_of l")
    case None
    let ?xs = "case dict_get sec ''text'' of Some (Lst xs) \<Rightarrow> xs | _ \<Rightarrow> []"
    let ?s1 = "dict_set sec ''text'' (Lst (?xs @ [l]))"
    have s1: "store_line sec l = Inr ?s1"
      using Cons.prems(2) None by (auto simp: store_line_narrative)
    have g: "dict_get ?s1 ''text'' = Some (Lst (?xs @ [l]))"
      by (simp add: dict_get_dict_set)
    have lv: "label_values ''text'' ls = []"
      using Cons.prems(1) None by (simp add: label_values_Cons)
    from Cons.IH [OF lv, of ?s1] g obtain sec' where
      "store_lines ?s1 ls = Inr sec'"
      "dict_get sec' ''text'' =
         (if narrative_lines ls = [] then Some (Lst (?xs @ [l]))
          else Some (Lst ((?xs @ [l]) @ narrative_lines ls)))"
      by auto
    then show ?thesis using s1 None by (auto simp: narrative_lines_Cons)
  next
    case (Some kv)
    obtain k v where kv: "kv = (k, v)" by (cases kv)
    with Some Cons.prems(1) have k: "k \<noteq> ''text''" and lv: "label_values ''text'' ls = []"
      by (auto simp: label_values_Cons split: if_splits)
    have s1: "store_line sec l = Inr (store_kv sec k v)"
      using Some kv by (simp add: store_line_kv)
    have g: "dict_get (store_kv sec k v) ''text'' = dict_get sec ''text''"
      using k by (simp add: dict_get_store_kv)
    from Cons.IH [OF lv, of "store_kv sec k v"] Cons.prems(2) g obtain sec' where
      "store_lines (store_kv sec k v) ls = Inr sec'"
      "dict_get sec' ''text'' =
         (if narrative_lines ls = [] then dict_get sec ''text''
          else Some (Lst ((case dict_get sec ''text'' of Some (Lst xs) \<Rightarrow> xs | _ \<Rightarrow> []) @ narrative_lines ls)))"
      by auto
    then show ?thesis using s1 Some kv by (auto simp: narrative_lines_Cons)
  qed
qed

lemma dict_get_flatten_section:
  "dict_get (flatten_section sec) k =
     (if k = ''text'' then map_option flatten_value (dict_get sec ''text'') else dict_get sec k)"
  by (auto simp: flatten_section_def dict_get_dict_set split: option.splits)

lemma walk_span:
  "\<forall>b\<in>set blocks. \<not> is_heading b \<and> \<not> is_section b \<Longrightarrow> name \<noteq> [] \<Longrightarrow>
   dict_get r name = Some (Sec sec) \<Longrightarrow>
     walk gt r (Some name) (blocks @ rest) =
       (case store_lines sec (span_lines gt blocks) of
          Inl e \<Rightarrow> Inl e
        | Inr sec' \<Rightarrow> walk gt (dict_set r name (Sec sec')) (Some name) rest)"
proof (induction blocks arbitrary: r sec)
  case Nil
  then show ?case by (simp add: span_lines_def dict_set_same)
next
  case (Cons b blocks)
  have nb: "\<not> is_heading b" "\<not> is_section b" and rest: "\<forall>b\<in>set blocks. \<not> is_heading b \<and> \<not> is_section b"
    using Cons.prems(1) by auto
  show ?case
  proof (cases "is_data b")
    case True
    let ?ls = "parse_acndata_block gt (node_contents b)"
    have sp: "span_lines gt (b # blocks) = ?ls @ span_lines gt blocks"
      using True by (simp add: span_lines_def)
    show ?thesis
    proof (cases "store_lines sec ?ls")
      case (Inl e)
      then show ?thesis using nb True Cons.prems(2,3) sp by (simp add: store_lines_append)
    next
      case (Inr s1)
      have g: "dict_get (dict_set r name (Sec s1)) name = Some (Sec s1)"
        by (simp add: dict_get_dict_set)
      from Cons.IH [OF rest Cons.prems(2) g] Inr
      show ?thesis using nb True Cons.prems(2,3) sp
        by (simp add: store_lines_append dict_set_twice split: sum.splits)
    qed
  next
    case False
    have sp: "span_lines gt (b # blocks) = span_lines gt blocks"
      using False by (simp add: span_lines_def)
    from Cons.IH [OF rest Cons.prems(2,3)] show ?thesis using nb False sp by simp
  qed
qed

lemma walk_keeps:
  "walk gt r sn rest = Inr res \<Longrightarrow> sn \<noteq> Some k \<Longrightarrow>
   \<forall>n\<in>set (takeWhile (\<lambda>n. \<not> is_heading n) rest). is_section n \<longrightarrow> section_of n \<noteq> k \<Longrightarrow>
     dict_get res k = dict_get r k"
proof (induction rest arbitrary: r sn)
  case Nil
  then show ?case by simp
next
  case (Cons a rest)
  show ?case
  proof (cases "is_heading a")
    case True
    with Cons.prems show ?thesis by simp
  next
    case nh: False
    then have tw: "\<forall>n\<in>set (takeWhile (\<lambda>n. \<not> is_heading n) rest). is_section n \<longrightarrow> section_of n \<noteq> k"
      using Cons.prems(3) by simp
    show ?thesis
    proof (cases "is_section a")
      case True
      then have ne: "section_of a \<noteq> k" using Cons.prems(3) nh by simp
      have w: "walk gt (dict_set r (section_of a) (Sec [])) (Some (section_of a)) rest = Inr res"
        using Cons.prems(1) nh True by simp
      from Cons.IH [OF w _ tw] ne show ?thesis by (simp add: dict_get_dict_set)
    next
      case ns: False
      show ?thesis
      proof (cases "is_data a \<and> sn \<noteq> None \<and> sn \<noteq> Some []")
        case True
        then obtain c where c: "sn = Some c" by auto
        from Cons.prems(1) nh ns True c obtain sec' where
          w: "walk gt (dict_set r c (Sec sec')) sn rest = Inr res"
          by (auto split: option.splits entry.splits sum.splits)
        from Cons.IH [OF w Cons.prems(2) tw] c Cons.prems(2) show ?thesis
          by (simp add: dict_get_dict_set)
      next
        case False
        then have "walk gt r sn rest = Inr res" using Cons.prems(1) nh ns by auto
        from Cons.IH [OF this Cons.prems(2) tw] show ?thesis .
      qed
    qed
  qed
qed

text \<open>The section of the final record that a span builds.\<close>

lemma span_section:
  assumes span: "section_span pre m blocks rest"
    and ex: "extract_record gt h (pre @ m # blocks @ rest) = Inr res"
  shows "\<exists>sec'. store_lines [] (span_lines gt blocks) = Inr sec' \<and>
           dict_get res (section_of m) = Some (Sec (flatten_section sec'))"
proof -
  let ?name = "section_of m"
  from span have pre: "\<forall>n\<in>set pre. \<not> is_heading n" and m: "is_section m" "\<not> is_heading m"
    and name: "?name \<noteq> []" and blocks: "\<forall>b\<in>set blocks. \<not> is_heading b \<and> \<not> is_section b"
    and hd: "rest = [] \<or> is_heading (hd rest) \<or> is_section (hd rest)"
    and later: "\<forall>n\<in>set (takeWhile (\<lambda>n. \<not> is_heading n) rest). is_section n \<longrightarrow> section_of n \<noteq> ?name"
    by (auto simp: section_span_def)
  from ex obtain r0 w where w: "walk gt r0 None (pre @ m # blocks @ rest) = Inr w" and res: "res = flatten w"
    by (auto simp: extract_record_def split: sum.splits)
  from walk_to_marker [OF pre m w] obtain r1 where
    r1: "walk gt (dict_set r1 ?name (Sec [])) (Some ?name) (blocks @ rest) = Inr w"
    by blast
  let ?r = "dict_set r1 ?name (Sec [])"
  have g: "dict_get ?r ?name = Some (Sec [])" by (simp add: dict_get_dict_set)
  from r1 walk_span [OF blocks name g, of gt rest] obtain sec' where
    sl: "store_lines [] (span_lines gt blocks) = Inr sec'" and
    w2: "walk gt (dict_set ?r ?name (Sec sec')) (Some ?name) rest = Inr w"
    by (auto split: sum.splits)
  let ?r2 = "dict_set ?r ?name (Sec sec')"
  have "dict_get w ?name = dict_get ?r2 ?name"
  proof (cases rest)
    case Nil
    with w2 show ?thesis by simp
  next
    case (Cons a rest')
    show ?thesis
    proof (cases "is_heading a")
      case True
      with w2 Cons show ?thesis by simp
    next
      case False
      with hd Cons have sa: "is_section a" by simp
      with later Cons False have ne: "section_of a \<noteq> ?name" by simp
      have tw: "\<forall>n\<in>set (takeWhile (\<lambda>n. \<not> is_heading n) rest'). is_section n \<longrightarrow> section_of n \<noteq> ?name"
        using later Cons False by simp
      have w3: "walk gt (dict_set ?r2 (section_of a) (Sec [])) (Some (section_of a)) rest' = Inr w"
        using w2 Cons False sa by simp
      from walk_keeps [OF w3 _ tw] ne show ?thesis by (simp add: dict_get_dict_set)
    qed
  qed
  then have "dict_get w ?name = Some (Sec sec')" by (simp add: dict_get_dict_set)
  then have "dict_get res ?name = Some (Sec (flatten_section sec'))"
    using res by (simp add: dict_get_flatten flatten_entry_def)
  with sl show ?thesis by blast
qed

section \<open>The errors of the extractor\<close>

text \<open>The extractor raises in two places only: the heading token and the narrative append.\<close>

lemma store_line_error: "store_line sec l = Inl e \<Longrightarrow> e = AttributeError"
  by (auto simp: store_line_def contains_def split_once_def
           split: if_splits option.splits field_value.splits)

lemma store_lines_error: "store_lines sec ls = Inl e \<Longrightarrow> e = AttributeError"
  by (induction ls arbitrary: sec) (auto split: sum.splits dest: store_line_error)

lemma walk_error:
  "walk gt r sn sibs = Inl e \<Longrightarrow>
   sn = None \<or> sn = Some [] \<or> (\<exists>sec. dict_get r (the sn) = Some (Sec sec)) \<Longrightarrow>
     e = AttributeError"
proof (induction sibs arbitrary: r sn)
  case Nil
  then show ?case by simp
next
  case (Cons a sibs)
  show ?case
  proof (cases "is_heading a")
    case True
    with Cons.prems show ?thesis by simp
  next
    case nh: False
    show ?thesis
    proof (cases "is_section a")
      case True
      have "walk gt (dict_set r (section_of a) (Sec [])) (Some (section_of a)) sibs = Inl e"
        using Cons.prems(1) nh True by simp
      from Cons.IH [OF this] show ?thesis by (simp add: dict_get_dict_set)
    next
      case ns: False
      show ?thesis
      proof (cases "is_data a \<and> sn \<noteq> None \<and> sn \<noteq> Some []")
        case True
        then obtain c where c0: "sn = Some c" "c \<noteq> []" by auto
        with Cons.prems(2) obtain sec where "dict_get r c = Some (Sec sec)" by auto
        with c0 have c: "sn = Some c" "dict_get r c = Some (Sec sec)" by auto
        show ?thesis
        proof (cases "store_lines sec (parse_acndata_block gt (node_contents a))")
          case (Inl e')
          with Cons.prems(1) nh ns True c show ?thesis by (auto dest: store_lines_error)
        next
          case (Inr sec')
          with Cons.prems(1) nh ns True c have
            "walk gt (dict_set r c (Sec sec')) (Some c) sibs = Inl e" by simp
          from Cons.IH [OF this] show ?thesis by (simp add: dict_get_dict_set)
        qed
      next
        case False
        then have "walk gt r sn sibs = Inl e" using Cons.prems(1) nh ns by auto
        from Cons.IH [OF this Cons.prems(2)] show ?thesis .
      qed
    qed
  qed
qed

lemma heading_record_error: "heading_record t = Inl e \<Longrightarrow> e = IndexError"
  by (auto simp: heading_record_def split: if_splits list.splits)

lemma extract_records_error:
  "extract_records gt doc = Inl e \<Longrightarrow> e = IndexError \<or> e = AttributeError"
proof (induction doc)
  case Nil
  then show ?case by simp
next
  case (Cons n ns)
  show ?case
  proof (cases "is_heading n")
    case False
    with Cons show ?thesis by simp
  next
    case True
    show ?thesis
    proof (cases "extract_record gt n ns")
      case (Inl e')
      with Cons.prems True have e: "e' = e" by simp
      from Inl show ?thesis unfolding e
        by (auto simp: extract_record_def split: sum.splits
                 dest: heading_record_error walk_error)
    next
      case (Inr r)
      with Cons True show ?thesis by (auto split: sum.splits)
    qed
  qed
qed

section \<open>Repeated section markers\<close>

text \<open>
  Claim C1, as the code has it. A section marker starts its section with an empty
  dictionary even when the name was seen before: what the final record holds under the
  name of a marker is what the extractor yields when every node between the heading and
  that marker is removed, so nothing collected under an earlier occurrence survives.
\<close>

theorem section_marker_resets:
  assumes "\<forall>n\<in>set pre. \<not> is_heading n" and "is_section m" and "\<not> is_heading m"
    and "extract_record gt h (pre @ m # post) = Inr res"
  shows "\<exists>res'. extract_record gt h (m # post) = Inr res' \<and>
           dict_get res (section_of m) = dict_get res' (section_of m)"
proof -
  let ?name = "section_of m"
  from assms(4) obtain r0 w where
    r0: "heading_record (node_text h) = Inr r0" and
    w: "walk gt r0 None (pre @ m # post) = Inr w" and
    res: "res = flatten w"
    by (auto simp: extract_record_def split: sum.splits)
  from walk_to_marker [OF assms(1-3) w] obtain r1 where
    r1: "walk gt (dict_set r1 ?name (Sec [])) (Some ?name) post = Inr w"
    by blast
  have "agree (dict_set r1 ?name (Sec [])) (dict_set r0 ?name (Sec [])) (Some ?name) ?name"
    by (simp add: agree_def dict_get_dict_set)
  from walk_agree [OF this r1] obtain w' where
    w': "walk gt (dict_set r0 ?name (Sec [])) (Some ?name) post = Inr w'"
        "dict_get w ?name = dict_get w' ?name"
    by blast
  have "walk gt r0 None (m # post) = Inr w'"
    using assms(2,3) w'(1) by simp
  then have "extract_record gt h (m # post) = Inr (flatten w')"
    using r0 by (simp add: extract_record_def)
  moreover have "dict_get res ?name = dict_get (flatten w') ?name"
    using res w'(2) by (simp add: dict_get_flatten)
  ultimately show ?thesis by blast
qed

theorem section_marker_resets_witness:
  "\<exists>res'. extract_record plain_text (para ''acnheading'' ''ACN: 1'')
             [para ''acnsection'' ''Place'', para ''acndata'' ''Altitude : 3000''] = Inr res' \<and>
          dict_get [(''ACN'', Ident ''1''), (''Place'', Sec [(''Altitude'', Str ''3000'')])]
                   (section_of (para ''acnsection'' ''Place'')) =
          dict_get res' (section_of (para ''acnsection'' ''Place''))"
proof -
  have a: "\<forall>n\<in>set [para ''acnsection'' ''Place'', para ''acndata'' ''State : CA'']. \<not> is_heading n"
    by code_simp
  have b: "is_section (para ''acnsection'' ''Place'')" by code_simp
  have c: "\<not> is_heading (para ''acnsection'' ''Place'')" by code_simp
  have d: "extract_record plain_text (para ''acnheading'' ''ACN: 1'')
             ([para ''acnsection'' ''Place'', para ''acndata'' ''State : CA''] @
              para ''acnsection'' ''Place'' # [para ''acndata'' ''Altitude : 3000'']) =
           Inr [(''ACN'', Ident ''1''), (''Place'', Sec [(''Altitude'', Str ''3000'')])]"
    by code_simp
  show ?thesis by (rule section_marker_resets [OF a b c d])
qed

text \<open>
  Claim C1 as stated fails: the key collected under the first \<open>Place\<close> marker is gone
  once the marker appears a second time.
\<close>

theorem section_reentry_counterexample:
  "extract_records plain_text
     [para ''acnheading'' ''ACN: 1'', para ''acnsection'' ''Place'',
      para ''acndata'' ''State : CA''] =
     Inr [[(''ACN'', Ident ''1''), (''Place'', Sec [(''State'', Str ''CA'')])]] \<and>
   extract_records plain_text
     [para ''acnheading'' ''ACN: 1'', para ''acnsection'' ''Place'',
      para ''acndata'' ''State : CA'', para ''acnsection'' ''Place''] =
     Inr [[(''ACN'', Ident ''1''), (''Place'', Sec [])]]"
  by code_simp

section \<open>Duplicate labels and narrative lines\<close>

text \<open>
  Claim C3, as the code has it. In the section built by the last marker of its name, a
  label other than \<open>text\<close> that occurs n times holds nothing for n = 0, the scalar
  string for n = 1, and for n \<ge> 2 the list of all its values in document order.
\<close>

theorem duplicate_key_promotion:
  assumes "section_span pre m blocks rest"
    and "extract_record gt h (pre @ m # blocks @ rest) = Inr res"
    and "k \<noteq> ''text''"
  shows "\<exists>sec. dict_get res (section_of m) = Some (Sec sec) \<and>
           dict_get sec k =
             (case label_values k (span_lines gt blocks) of
                [] \<Rightarrow> None
              | [v] \<Rightarrow> Some (Str v)
              | vs \<Rightarrow> Some (Lst vs))"
proof -
  from span_section [OF assms(1,2)] obtain sec' where
    sl: "store_lines [] (span_lines gt blocks) = Inr sec'" and
    g: "dict_get res (section_of m) = Some (Sec (flatten_section sec'))"
    by blast
  have "dict_get sec' k = promote_all None (label_values k (span_lines gt blocks))"
    using store_lines_other_key [OF sl assms(3)] by simp
  then have "dict_get (flatten_section sec') k =
      (case label_values k (span_lines gt blocks) of [] \<Rightarrow> None | [v] \<Rightarrow> Some (Str v) | vs \<Rightarrow> Some (Lst vs))"
    using assms(3) by (simp add: dict_get_flatten_section promote_all_None split: list.splits)
  with g show ?thesis by blast
qed

text \<open>
  The three lines \<open>A : 1\<close>, \<open>A : 2\<close>, \<open>A : 3\<close> of one section yield the list of the
  three values.
\<close>

theorem duplicate_key_promotion_witness:
  "\<exists>sec. dict_get [(''ACN'', Ident ''1''), (''Events'', Sec [(''A'', Lst [''1'', ''2'', ''3''])])] ''Events'' =
            Some (Sec sec) \<and>
         dict_get sec ''A'' = Some (Lst [''1'', ''2'', ''3''])"
proof -
  let ?m = "para ''acnsection'' ''Events:''"
  let ?blocks = "[para ''acndata'' ''A : 1'', para ''acndata'' ''A : 2'', para ''acndata'' ''A : 3'']"
  have a: "section_span [] ?m ?blocks []"
    by code_simp
  have b: "extract_record plain_text (para ''acnheading'' ''ACN: 1'') ([] @ ?m # ?blocks @ []) =
             Inr [(''ACN'', Ident ''1''), (''Events'', Sec [(''A'', Lst [''1'', ''2'', ''3''])])]"
    by code_simp
  have c: "''A'' \<noteq> ''text''" by simp
  have n: "section_of ?m = ''Events''" by code_simp
  have lv: "label_values ''A'' (span_lines plain_text ?blocks) = [''1'', ''2'', ''3'']"
    by code_simp
  show ?thesis using duplicate_key_promotion [OF a b c] unfolding n lv by simp
qed

text \<open>
  Claim C3 as stated fails for the label \<open>text\<close>: after a narrative line, its first
  occurrence stores a two-element list, and the final record holds the joined string.
\<close>

theorem text_label_promotion_counterexample:
  "label_values ''text'' [''see above'', ''text : 1''] = [''1''] \<and>
   store_lines [] [''see above'', ''text : 1''] = Inr [(''text'', Lst [''see above'', ''1''])] \<and>
   extract_records plain_text
     [para ''acnheading'' ''ACN: 1'', para ''acnsection'' ''Events'',
      para ''acndata'' ''see above'', para ''acndata'' ''text : 1''] =
     Inr [[(''ACN'', Ident ''1''),
           (''Events'', Sec [(''text'', Str (''see above'' @ [CHR 0x0A] @ ''1''))])]]"
  by code_simp

text \<open>
  Claim C5, as the code has it. In the section built by the last marker of its name,
  when no key/value line is labelled \<open>text\<close>, the narrative lines are joined by
  newlines, in document order, under the key \<open>text\<close>, and without narrative lines the
  section has no such key.
\<close>

theorem narrative_accumulates:
  assumes "section_span pre m blocks rest"
    and "extract_record gt h (pre @ m # blocks @ rest) = Inr res"
    and "label_values ''text'' (span_lines gt blocks) = []"
  shows "\<exists>sec. dict_get res (section_of m) = Some (Sec sec) \<and>
           dict_get sec ''text'' =
             (if narrative_lines (span_lines gt blocks) = [] then None
              else Some (Str (join [CHR 0x0A] (narrative_lines (span_lines gt blocks)))))"
proof -
  from span_section [OF assms(1,2)] obtain sec' where
    sl: "store_lines [] (span_lines gt blocks) = Inr sec'" and
    g: "dict_get res (section_of m) = Some (Sec (flatten_section sec'))"
    by blast
  from store_lines_text [OF assms(3), of "[]"] sl have
    "dict_get sec' ''text'' =
       (if narrative_lines (span_lines gt blocks) = [] then None
        else Some (Lst (narrative_lines (span_lines gt blocks))))"
    by auto
  then have "dict_get (flatten_section sec') ''text'' =
       (if narrative_lines (span_lines gt blocks) = [] then None
        else Some (Str (join [CHR 0x0A] (narrative_lines (span_lines gt blocks)))))"
    by (simp add: dict_get_flatten_section flatten_value_def)
  with g show ?thesis by blast
qed

text \<open>
  Two narrative lines around a key/value line.
\<close>

theorem narrative_accumulates_witness:
  "\<exists>sec. dict_get [(''ACN'', Ident ''1''),
                   (''Narrative: 1'', Sec [(''text'', Str (''We departed.'' @ [CHR 0x0A] @ ''Tower called.'')),
                                          (''Phase'', Str ''Climb'')])] ''Narrative: 1'' =
            Some (Sec sec) \<and>
         dict_get sec ''text'' = Some (Str (''We departed.'' @ [CHR 0x0A] @ ''Tower called.''))"
proof -
  let ?m = "para ''acnsection'' ''Narrative: 1''"
  let ?blocks = "[para ''acndata'' ''We departed.'', para ''acndata'' ''Phase : Climb'',
                  para ''acndata'' ''Tower called.'']"
  have a: "section_span [] ?m ?blocks []"
    by code_simp
  have b: "extract_record plain_text (para ''acnheading'' ''ACN: 1'') ([] @ ?m # ?blocks @ []) =
             Inr [(''ACN'', Ident ''1''),
                  (''Narrative: 1'', Sec [(''text'', Str (''We departed.'' @ [CHR 0x0A] @ ''Tower called.'')),
                                         (''Phase'', Str ''Climb'')])]"
    by code_simp
  have c: "label_values ''text'' (span_lines plain_text ?blocks) = []" by code_simp
  have n: "section_of ?m = ''Narrative: 1''" by code_simp
  have nl: "narrative_lines (span_lines plain_text ?blocks) = [''We departed.'', ''Tower called.'']"
    by code_simp
  show ?thesis using narrative_accumulates [OF a b c] unfolding n nl by simp
qed

text \<open>
  Claim C5 as stated fails: a section without narrative lines has the key \<open>text\<close> when
  a key/value line is labelled so.
\<close>

theorem text_key_without_narrative_counterexample:
  "narrative_lines (span_lines plain_text [para ''acndata'' ''text : on'']) = [] \<and>
   extract_records plain_text
     [para ''acnheading'' ''ACN: 1'', para ''acnsection'' ''Events'', para ''acndata'' ''text : on''] =
     Inr [[(''ACN'', Ident ''1''), (''Events'', Sec [(''text'', Str [CHR ''o'', CHR 0x0A, CHR ''n''])])]]"
  by code_simp

section \<open>The heading and the reserved keys\<close>

lemma heading_record_colon:
  assumes "CHR '':'' \<in> set t"
  shows "\<exists>p rem. t = p @ '':'' @ rem \<and> CHR '':'' \<notin> set p \<and>
           heading_record t = (case split_ws rem of [] \<Rightarrow> Inl IndexError
                                                  | w # ws \<Rightarrow> Inr [(''ACN'', Ident w)])"
proof -
  from assms obtain p rem where sp: "split_at_first '':'' t = Some (p, rem)"
    using contains_single [of "CHR '':''" t] by (auto simp: contains_def)
  have "t = p @ '':'' @ rem" using split_at_first_parts [OF sp] .
  moreover have "CHR '':'' \<notin> set p" using split_at_first_single_notin [OF sp] .
  moreover have "heading_record t = (case split_ws rem of [] \<Rightarrow> Inl IndexError
                                                  | w # ws \<Rightarrow> Inr [(''ACN'', Ident w)])"
    using sp by (simp add: heading_record_def contains_def split_once_def)
  ultimately show ?thesis by blast
qed

lemma heading_record_no_colon: "CHR '':'' \<notin> set t \<Longrightarrow> heading_record t = Inr []"
  using contains_single [of "CHR '':''" t] by (simp add: heading_record_def)

text \<open>
  Claim C4, as the code has it. When a record is extracted and none of its section
  markers is named \<open>ACN\<close>: if the heading text has a colon, the key \<open>ACN\<close> holds the first
  whitespace-delimited token of the text after the first colon; if it has none, the
  record has no key \<open>ACN\<close>.
\<close>

theorem heading_identifier:
  assumes "extract_record gt h sibs = Inr r"
    and "\<forall>n\<in>set sibs. is_section n \<longrightarrow> section_of n \<noteq> ''ACN''"
  shows "if CHR '':'' \<in> set (node_text h)
         then \<exists>p sp w rest.
                node_text h = p @ '':'' @ sp @ w @ rest \<and> CHR '':'' \<notin> set p \<and>
                (\<forall>c\<in>set sp. is_space c) \<and> w \<noteq> [] \<and> (\<forall>c\<in>set w. \<not> is_space c) \<and>
                (rest = [] \<or> is_space (hd rest)) \<and>
                dict_get r ''ACN'' = Some (Ident w)
         else dict_get r ''ACN'' = None"
proof -
  from assms(1) obtain r0 w where r0: "heading_record (node_text h) = Inr r0"
    and w: "walk gt r0 None sibs = Inr w" and r: "r = flatten w"
    by (auto simp: extract_record_def split: sum.splits)
  have "\<forall>n\<in>set (takeWhile (\<lambda>n. \<not> is_heading n) sibs). is_section n \<longrightarrow> section_of n \<noteq> ''ACN''"
    using assms(2) by (auto dest: set_takeWhileD)
  from walk_keeps [OF w _ this] have "dict_get w ''ACN'' = dict_get r0 ''ACN''" by simp
  then have keep: "dict_get r ''ACN'' = map_option flatten_entry (dict_get r0 ''ACN'')"
    using r by (simp add: dict_get_flatten)
  show ?thesis
  proof (cases "CHR '':'' \<in> set (node_text h)")
    case True
    from heading_record_colon [OF True] obtain p rem where
      t: "node_text h = p @ '':'' @ rem" "CHR '':'' \<notin> set p" and
      hr: "heading_record (node_text h) = (case split_ws rem of [] \<Rightarrow> Inl IndexError
                                                  | w # ws \<Rightarrow> Inr [(''ACN'', Ident w)])"
      by blast
    from hr r0 obtain tok toks where tok: "split_ws rem = tok # toks" "r0 = [(''ACN'', Ident tok)]"
      by (auto split: list.splits)
    from split_ws_first [OF tok(1)] obtain sp rest where
      "rem = sp @ tok @ rest" "\<forall>c\<in>set sp. is_space c" "tok \<noteq> []"
      "\<forall>c\<in>set tok. \<not> is_space c" "rest = [] \<or> is_space (hd rest)"
      by blast
    moreover have "dict_get r ''ACN'' = Some (Ident tok)"
      using keep tok(2) by (simp add: flatten_entry_def)
    ultimately show ?thesis using True t by auto
  next
    case False
    then have "r0 = []" using heading_record_no_colon r0 by simp
    then show ?thesis using False keep by simp
  qed
qed

text \<open>
  The heading text \<open>ACN: 2184152 (1 of 91)\<close> yields the identifier \<open>2184152\<close>.
\<close>

theorem heading_identifier_witness:
  "\<exists>p sp w rest.
      ''ACN: 2184152 (1 of 91)'' = p @ '':'' @ sp @ w @ rest \<and> CHR '':'' \<notin> set p \<and>
      (\<forall>c\<in>set sp. is_space c) \<and> w \<noteq> [] \<and> (\<forall>c\<in>set w. \<not> is_space c) \<and>
      (rest = [] \<or> is_space (hd rest)) \<and>
      dict_get [(''ACN'', Ident ''2184152''), (''Place'', Sec [(''State'', Str ''CA'')])] ''ACN'' =
        Some (Ident w)"
proof -
  let ?h = "para ''acnheading'' ''ACN: 2184152 (1 of 91)''"
  let ?sibs = "[para ''acnsection'' ''Place'', para ''acndata'' ''State : CA'']"
  have a: "extract_record plain_text ?h ?sibs =
             Inr [(''ACN'', Ident ''2184152''), (''Place'', Sec [(''State'', Str ''CA'')])]"
    by code_simp
  have b: "\<forall>n\<in>set ?sibs. is_section n \<longrightarrow> section_of n \<noteq> ''ACN''"
    by code_simp
  have t: "node_text ?h = ''ACN: 2184152 (1 of 91)''" by code_simp
  have c: "CHR '':'' \<in> set ''ACN: 2184152 (1 of 91)''" by simp
  show ?thesis using heading_identifier [OF a b] unfolding t using c by simp
qed

text \<open>
  Claim C4 as stated fails when a section marker is named \<open>ACN\<close>: the record and the
  sections share one dictionary, so the section takes the key, with and without a colon
  in the heading.
\<close>

theorem section_named_acn_counterexample:
  "extract_records plain_text
     [para ''acnheading'' ''ACN: 2184152 (1 of 91)'', para ''acnsection'' ''ACN''] =
     Inr [[(''ACN'', Sec [])]] \<and>
   extract_records plain_text
     [para ''acnheading'' ''Report 7'', para ''acnsection'' ''ACN''] =
     Inr [[(''ACN'', Sec [])]]"
  by code_simp

text \<open>
  Claim C2 against the code: a heading whose text has a colon and nothing after it makes
  the extractor raise IndexError, on a decodable document.
\<close>

theorem heading_without_token_raises:
  "extract_records plain_text
     [para ''acnheading'' ''ACN:'', para ''acnsection'' ''Place'', para ''acndata'' ''State : CA''] =
     Inl IndexError"
  by code_simp

text \<open>
  Claim C10. A key/value line labelled \<open>text\<close> stores a scalar under the reserved key:
  a later narrative line of the same section makes the extractor raise, and without one
  the flatten step joins the characters of the scalar with newlines.
\<close>

theorem text_key_collision:
  "extract_records plain_text
     [para ''acnheading'' ''ACN: 1'', para ''acnsection'' ''Events'',
      para ''acndata'' ''text : ab'', para ''acndata'' ''Crew reported a fault.''] =
     Inl AttributeError \<and>
   extract_records plain_text
     [para ''acnheading'' ''ACN: 1'', para ''acnsection'' ''Events'', para ''acndata'' ''text : ab''] =
     Inr [[(''ACN'', Ident ''1''), (''Events'', Sec [(''text'', Str [CHR ''a'', CHR 0x0A, CHR ''b''])])]]"
  by code_simp

section \<open>The lines of a data block\<close>

lemma split_at_first_before:
  "split_at_first sep s = Some (a, b) \<Longrightarrow> sep \<noteq> [] \<Longrightarrow> split_at_first sep a = None"
proof (induction s arbitrary: a)
  case Nil
  then show ?case by (simp split: if_splits)
next
  case (Cons c cs)
  show ?case
  proof (cases "prefix sep (c # cs)")
    case True
    with Cons.prems show ?thesis by auto
  next
    case False
    with Cons.prems obtain a' where a': "split_at_first sep cs = Some (a', b)" "a = c # a'"
      by (auto split: prod.splits)
    have cs: "c # cs = (c # a') @ sep @ b"
      using split_at_first_parts [OF a'(1)] by simp
    have "\<not> prefix sep (c # a')"
    proof
      assume "prefix sep (c # a')"
      then have "prefix sep ((c # a') @ sep @ b)" by (rule prefix_prefix)
      with cs False show False by simp
    qed
    with Cons.IH [OF a'(1) Cons.prems(2)] a'(2) show ?thesis by simp
  qed
qed

lemma split_sep_not_Nil: "split_sep sep s \<noteq> []"
  by (simp add: split_sep.simps [of sep s] split: option.splits)

lemma join_Cons: "xs \<noteq> [] \<Longrightarrow> join sep (x # xs) = x @ sep @ join sep xs"
  by (cases xs) auto

lemma join_split_sep: "sep \<noteq> [] \<Longrightarrow> join sep (split_sep sep s) = s"
proof (induction sep s rule: split_sep.induct)
  case (1 sep s)
  show ?case
  proof (cases "split_at_first sep s")
    case None
    then show ?thesis using "1.prems" by (simp add: split_sep.simps [of sep s])
  next
    case (Some ab)
    obtain a b where ab: "ab = (a, b)" by (cases ab)
    have "join sep (split_sep sep b) = b"
      using "1.IH" [OF "1.prems" Some ab [symmetric]] "1.prems" by simp
    moreover have "s = a @ sep @ b" using split_at_first_parts Some ab by simp
    moreover have "split_sep sep s = a # split_sep sep b"
      using "1.prems" Some ab by (simp add: split_sep.simps [of sep s])
    ultimately show ?thesis
      by (simp only: join_Cons [OF split_sep_not_Nil])
  qed
qed

lemma split_sep_pieces:
  "sep \<noteq> [] \<Longrightarrow> p \<in> set (split_sep sep s) \<Longrightarrow> \<not> contains sep p"
proof (induction sep s rule: split_sep.induct)
  case (1 sep s)
  show ?case
  proof (cases "split_at_first sep s")
    case None
    then show ?thesis using "1.prems" by (simp add: split_sep.simps [of sep s] contains_def)
  next
    case (Some ab)
    obtain a b where ab: "ab = (a, b)" by (cases ab)
    from "1.prems" Some ab have "p = a \<or> p \<in> set (split_sep sep b)"
      by (simp add: split_sep.simps [of sep s])
    then show ?thesis
    proof
      assume "p = a"
      then show ?thesis using split_at_first_before Some ab "1.prems"(1) by (simp add: contains_def)
    next
      assume "p \<in> set (split_sep sep b)"
      from "1.IH" [OF "1.prems"(1) Some ab [symmetric] "1.prems"(1) this] show ?thesis .
    qed
  qed
qed

text \<open>
  Claim C6 against the code: the logical lines of a data block are not separated. The
  library writes the break element as \<open><br/>\<close>, the split on \<open><br>\<close> finds no marker, and
  the block of the two lines \<open>State : CA\<close> and \<open>Day\<close> is classified as the one key/value
  line \<open>State : CA Day\<close>.
\<close>

theorem break_element_not_split:
  "node_contents (para ''acndata'' ''State : CA<br>Day'') = ''State : CA<br/>Day'' \<and>
   parse_acndata_block plain_text ''State : CA<br/>Day'' = [''State : CA Day''] \<and>
   extract_records plain_text
     [para ''acnheading'' ''ACN: 1'', para ''acnsection'' ''Place'',
      para ''acndata'' ''State : CA<br>Day''] =
     Inr [[(''ACN'', Ident ''1''), (''Place'', Sec [(''State'', Str ''CA Day'')])]]"
  by code_simp

text \<open>
  A raw line that holds only markup is not blank, so it is kept; its text is empty, and
  the empty line is classified as narrative and stored.
\<close>

lemma markup_only_line_kept:
  "strip ''<b></b>'' \<noteq> [] \<and>
   parse_acndata_block plain_text ''<b></b>'' = [''''] \<and>
   extract_records plain_text
     [para ''acnheading'' ''ACN: 1'', para ''acnsection'' ''Events'', para ''acndata'' ''<b></b>''] =
     Inr [[(''ACN'', Ident ''1''), (''Events'', Sec [(''text'', Str '''')])]]"
  by code_simp

section \<open>One incident of the batch classifier\<close>







text \<open>
  Claim C7. For an incident whose narrative is empty or only whitespace, no call is
  issued (the list of prompts sent is unchanged) and the classification attached to the
  incident is the empty list; \<open>get_hfacs_classification_from_llm\<close> itself returns the
  empty list for such a text without a call.
\<close>

theorem blank_narrative_skips_service:
  assumes "narrative_of target field = Inr (JStr s)" and "\<forall>c\<in>set s. is_space c"
  shows "process_incident e field target sent =
           Inr (dict_set target ''hfacs_classification'' (JArr []), sent) \<and>
         dict_get (dict_set target ''hfacs_classification'' (JArr [])) ''hfacs_classification'' =
           Some (JArr []) \<and>
         get_hfacs_classification_from_llm e sent s = Inr (([], 0, 0), sent)"
proof -
  have st: "strip s = []" using assms(2) by (simp add: strip_empty)
  then have "blank (JStr s) = Inr True" by (simp add: blank_def)
  then show ?thesis using assms(1) st
    by (simp add: process_incident_def get_hfacs_classification_from_llm_def dict_get_dict_set)
qed

text \<open>
  A narrative of a space and a newline.
\<close>

theorem blank_narrative_skips_service_witness:
  "process_incident echo_env ''Narrative: 1''
      [(''ACN'', JStr ''7''), (''Narrative: 1'', JObj [(''text'', JStr [CHR 0x20, CHR 0x0A])])]
      [''Classify: earlier''] =
     Inr ([(''ACN'', JStr ''7''), (''Narrative: 1'', JObj [(''text'', JStr [CHR 0x20, CHR 0x0A])]),
           (''hfacs_classification'', JArr [])], [''Classify: earlier'']) \<and>
   get_hfacs_classification_from_llm echo_env [''Classify: earlier''] [CHR 0x20, CHR 0x0A] =
     Inr (([], 0, 0), [''Classify: earlier''])"
proof -
  let ?t = "[(''ACN'', JStr ''7''), (''Narrative: 1'', JObj [(''text'', JStr [CHR 0x20, CHR 0x0A])])]"
  have a: "narrative_of ?t ''Narrative: 1'' = Inr (JStr [CHR 0x20, CHR 0x0A])" by code_simp
  have b: "\<forall>c\<in>set [CHR 0x20, CHR 0x0A]. is_space c" by code_simp
  show ?thesis
    using blank_narrative_skips_service [OF a b, of echo_env "[''Classify: earlier'']"] by simp
qed



text \<open>
  A parser that raises another exception on the output text: the step still returns,
  and the descriptor holds the message without the text.
\<close>

lemma parser_exception_descriptor:
  "process_incident (echo_env\<lparr>json_loads := (\<lambda>s. Loads_raised ''maximum recursion depth exceeded'')\<rparr>)
     ''Narrative: 1''
     [(''ACN'', JStr ''7''), (''Narrative: 1'', JObj [(''text'', JStr ''Engine fire.'')])] [] =
   Inr ([(''ACN'', JStr ''7''), (''Narrative: 1'', JObj [(''text'', JStr ''Engine fire.'')]),
         (''hfacs_classification'',
          JArr [JObj [(''error'', JStr ''Unexpected error: maximum recursion depth exceeded'')]])],
        [''Classify: Engine fire.''])"
  by code_simp

section \<open>The merge into the master list\<close>

lemma select_range_bounds:
  "select_range n a b = Some (s, e) \<Longrightarrow> s < e \<and> e \<le> n"
  by (auto simp: select_range_def Let_def split: if_splits option.splits)

lemma process_incident_sets:
  "process_incident e field t sent = Inr (t', sent') \<Longrightarrow>
     \<exists>c. t' = dict_set t ''hfacs_classification'' c"
  by (auto simp: process_incident_def split: sum.splits bool.splits prod.splits if_splits)

lemma process_incident_acn:
  "process_incident e field t sent = Inr (t', sent') \<Longrightarrow> dict_get t' ''ACN'' = dict_get t ''ACN''"
  by (auto dest!: process_incident_sets simp: dict_get_dict_set)

lemma find_target_positional:
  "idx < n \<Longrightarrow> find_target False imap n idx item = Inr (Some idx)"
  by (simp add: find_target_def)

lemma build_map_other:
  "build_map k xs m = Inr imap \<Longrightarrow> key \<notin> set (acn_keys xs) \<Longrightarrow> dict_get imap key = dict_get m key"
proof (induction xs arbitrary: k m)
  case Nil
  then show ?case by simp
next
  case (Cons x xs)
  from Cons.prems(1) obtain a where a: "dict_get x ''ACN'' = Some a" "hashable a"
    and b: "build_map (Suc k) xs (dict_set m (norm_key a) k) = Inr imap"
    by (auto split: option.splits if_splits)
  from Cons.prems(2) a have "key \<noteq> norm_key a" "key \<notin> set (acn_keys xs)"
    by (auto simp: acn_keys_def)
  with Cons.IH [OF b] show ?case by (simp add: dict_get_dict_set)
qed

lemma build_map_index:
  "build_map k xs m = Inr imap \<Longrightarrow> distinct (acn_keys xs) \<Longrightarrow> i < length xs \<Longrightarrow>
     dict_get imap (acn_keys xs ! i) = Some (k + i) \<and>
     (\<exists>a. dict_get (xs ! i) ''ACN'' = Some a \<and> hashable a)"
proof (induction xs arbitrary: k m i)
  case Nil
  then show ?case by simp
next
  case (Cons x xs)
  from Cons.prems(1) obtain a where a: "dict_get x ''ACN'' = Some a" "hashable a"
    and b: "build_map (Suc k) xs (dict_set m (norm_key a) k) = Inr imap"
    by (auto split: option.splits if_splits)
  have keys: "acn_keys (x # xs) = norm_key a # acn_keys xs"
    using a by (simp add: acn_keys_def)
  show ?case
  proof (cases i)
    case 0
    have "norm_key a \<notin> set (acn_keys xs)" using Cons.prems(2) keys by simp
    from build_map_other [OF b this] show ?thesis using 0 keys a by (simp add: dict_get_dict_set)
  next
    case (Suc j)
    have "distinct (acn_keys xs)" "j < length xs" using Cons.prems(2,3) keys Suc by auto
    from Cons.IH [OF b this] show ?thesis using Suc keys by simp
  qed
qed

lemma process_loop_positional:
  "process_loop e field hasacn imap idx items data sent = Inr (data', sent') \<Longrightarrow>
   \<forall>j<length items. find_target hasacn imap (length data) (idx + j) (items ! j) = Inr (Some (idx + j)) \<Longrightarrow>
     length data' = length data \<and>
     (\<forall>i<length data.
        if idx \<le> i \<and> i < idx + length items
        then \<exists>s s'. process_incident e field (data ! i) s = Inr (data' ! i, s')
        else data' ! i = data ! i)"
proof (induction items arbitrary: idx data sent)
  case Nil
  then show ?case by auto
next
  case (Cons item items)
  from Cons.prems(2) have ft: "find_target hasacn imap (length data) idx item = Inr (Some idx)"
    by (metis add.right_neutral length_greater_0_conv list.discI nth_Cons_0)
  with Cons.prems(1) have lt: "idx < length data" by (auto split: if_splits)
  from Cons.prems(1) ft lt obtain t s1 where
    pi: "process_incident e field (data ! idx) sent = Inr (t, s1)" and
    rec: "process_loop e field hasacn imap (Suc idx) items (data[idx := t]) s1 = Inr (data', sent')"
    by (auto split: sum.splits)
  have "\<forall>j<length items. find_target hasacn imap (length (data[idx := t])) (Suc idx + j) (items ! j) =
          Inr (Some (Suc idx + j))"
  proof (intro allI impI)
    fix j assume "j < length items"
    then have "Suc j < length (item # items)" by simp
    from Cons.prems(2) [rule_format, OF this] show
      "find_target hasacn imap (length (data[idx := t])) (Suc idx + j) (items ! j) = Inr (Some (Suc idx + j))"
      by simp
  qed
  from Cons.IH [OF rec this] have len: "length data' = length data" and
    ih: "\<forall>i<length data.
        if Suc idx \<le> i \<and> i < Suc idx + length items
        then \<exists>s s'. process_incident e field (data[idx := t] ! i) s = Inr (data' ! i, s')
        else data' ! i = data[idx := t] ! i"
    by auto
  have "\<forall>i<length data.
        if idx \<le> i \<and> i < idx + length (item # items)
        then \<exists>s s'. process_incident e field (data ! i) s = Inr (data' ! i, s')
        else data' ! i = data ! i"
  proof (intro allI impI)
    fix i assume i: "i < length data"
    show "if idx \<le> i \<and> i < idx + length (item # items)
        then \<exists>s s'. process_incident e field (data ! i) s = Inr (data' ! i, s')
        else data' ! i = data ! i"
    proof (cases "i = idx")
      case True
      with ih i have "data' ! i = t" by simp
      with pi True show ?thesis by auto
    next
      case False
      with ih [rule_format, OF i] show ?thesis by (auto split: if_splits)
    qed
  qed
  with len show ?case by blast
qed

lemma run_batch_merge:
  assumes run: "run_batch e field inc existing s e' = Inr (out, sent)"
    and master: "master = (case existing of Some d \<Rightarrow> d | None \<Rightarrow> inc)"
    and len: "length master = length inc"
    and acn: "\<forall>i<length inc. dict_get (master ! i) ''ACN'' = dict_get (inc ! i) ''ACN''"
    and keys: "\<not> has_acn inc \<or> distinct (acn_keys inc)"
    and range: "s < e'" "e' \<le> length inc"
  shows "length out = length inc \<and>
         (\<forall>i<length inc.
            if s \<le> i \<and> i < e'
            then \<exists>t t'. process_incident e field (master ! i) t = Inr (out ! i, t')
            else out ! i = master ! i)"
proof -
  let ?slice = "take (e' - s) (drop s inc)"
  have ne: "master \<noteq> []" using len range by auto
  have sl: "length ?slice = e' - s" using range by simp
  have nth: "\<And>j. j < e' - s \<Longrightarrow> ?slice ! j = inc ! (s + j)" using range by simp
  have ak: "acn_keys master = acn_keys inc"
    using len acn by (auto simp: acn_keys_def intro!: nth_equalityI)
  have ha: "has_acn master = has_acn inc"
    using len acn by (simp add: has_acn_def list_all_length)
  obtain imap where
    im: "(if has_acn master then build_map 0 master [] else Inr []) = Inr imap" and
    lp: "process_loop e field (has_acn master) imap s ?slice master [] = Inr (out, sent)"
  proof (cases existing)
    case None
    with run master that show ?thesis
      by (auto simp: run_batch_def Let_def split: sum.splits)
  next
    case (Some d)
    with master ne obtain x xs where "d = x # xs" by (cases d) auto
    with run master Some that show ?thesis
      by (auto simp: run_batch_def Let_def split: sum.splits)
  qed
  have wk: "\<forall>j<length ?slice.
      find_target (has_acn master) imap (length master) (s + j) (?slice ! j) = Inr (Some (s + j))"
  proof (intro allI impI)
    fix j assume "j < length ?slice"
    then have j: "j < e' - s" using sl by simp
    then have sj: "s + j < length master" using range len by simp
    show "find_target (has_acn master) imap (length master) (s + j) (?slice ! j) = Inr (Some (s + j))"
    proof (cases "has_acn master")
      case False
      then show ?thesis using sj by (simp add: find_target_def)
    next
      case True
      then have bm: "build_map 0 master [] = Inr imap" using im by simp
      have "distinct (acn_keys master)" using keys ha True ak by simp
      from build_map_index [OF bm this sj] obtain a where
        g: "dict_get imap (acn_keys master ! (s + j)) = Some (s + j)" and
        a: "dict_get (master ! (s + j)) ''ACN'' = Some a" "hashable a"
        by auto
      have k: "acn_keys master ! (s + j) = norm_key a"
        using a sj by (simp add: acn_keys_def)
      have "dict_get (inc ! (s + j)) ''ACN'' = Some a"
        using a acn sj len by simp
      then show ?thesis using True g k a nth [OF j]
        by (simp add: find_target_def)
    qed
  qed
  from process_loop_positional [OF lp wk] sl range len show ?thesis
    by simp
qed

lemma run_pair_merge:
  assumes "\<not> has_acn incidents \<or> distinct (acn_keys incidents)"
    and "select_range (length incidents) a1 b1 = Some (s1, e1)"
    and "select_range (length incidents) a2 b2 = Some (s2, e2)"
    and "run_batch env1 field incidents None s1 e1 = Inr (out1, sent1)"
    and "run_batch env2 field incidents (Some out1) s2 e2 = Inr (out2, sent2)"
  shows "length out1 = length incidents \<and> length out2 = length incidents \<and>
         (\<forall>i<length incidents.
            (if s1 \<le> i \<and> i < e1
             then \<exists>t t'. process_incident env1 field (incidents ! i) t = Inr (out1 ! i, t')
             else out1 ! i = incidents ! i) \<and>
            (if s2 \<le> i \<and> i < e2
             then \<exists>t t'. process_incident env2 field (out1 ! i) t = Inr (out2 ! i, t')
             else out2 ! i = out1 ! i))"
proof -
  from select_range_bounds [OF assms(2)] have r1: "s1 < e1" "e1 \<le> length incidents" by auto
  from select_range_bounds [OF assms(3)] have r2: "s2 < e2" "e2 \<le> length incidents" by auto
  have m1: "length out1 = length incidents \<and>
         (\<forall>i<length incidents.
            if s1 \<le> i \<and> i < e1
            then \<exists>t t'. process_incident env1 field (incidents ! i) t = Inr (out1 ! i, t')
            else out1 ! i = incidents ! i)"
    by (rule run_batch_merge [OF assms(4) _ _ _ assms(1) r1]) auto
  from m1 have all1: "\<forall>i<length incidents.
            if s1 \<le> i \<and> i < e1
            then \<exists>t t'. process_incident env1 field (incidents ! i) t = Inr (out1 ! i, t')
            else out1 ! i = incidents ! i"
    by blast
  have acn: "\<forall>i<length incidents. dict_get (out1 ! i) ''ACN'' = dict_get (incidents ! i) ''ACN''"
  proof (intro allI impI)
    fix i assume i: "i < length incidents"
    note at_i = all1 [rule_format, OF i]
    show "dict_get (out1 ! i) ''ACN'' = dict_get (incidents ! i) ''ACN''"
    proof (cases "s1 \<le> i \<and> i < e1")
      case True
      with at_i obtain t t' where "process_incident env1 field (incidents ! i) t = Inr (out1 ! i, t')"
        by auto
      then show ?thesis by (rule process_incident_acn)
    next
      case False
      with at_i show ?thesis by auto
    qed
  qed
  have m2: "length out2 = length incidents \<and>
         (\<forall>i<length incidents.
            if s2 \<le> i \<and> i < e2
            then \<exists>t t'. process_incident env2 field (out1 ! i) t = Inr (out2 ! i, t')
            else out2 ! i = out1 ! i)"
    using m1 by (intro run_batch_merge [OF assms(5) _ _ acn assms(1) r2]) auto
  from m1 m2 show ?thesis by auto
qed

text \<open>Whatever the keys, a run updates records in place: it only sets their classification.\<close>

lemma process_loop_inplace:
  "process_loop e field hasacn imap idx items data sent = Inr (data', sent') \<Longrightarrow>
     length data' = length data \<and>
     (\<forall>i<length data. data' ! i = data ! i \<or>
        (\<exists>c. data' ! i = dict_set (data ! i) ''hfacs_classification'' c))"
proof (induction items arbitrary: idx data sent)
  case Nil
  then show ?case by auto
next
  case (Cons item items)
  show ?case
  proof (cases "find_target hasacn imap (length data) idx item")
    case (Inl err)
    with Cons.prems show ?thesis by simp
  next
    case (Inr tgt)
    show ?thesis
    proof (cases tgt)
      case None
      with Cons.prems Inr have
        "process_loop e field hasacn imap (Suc idx) items data sent = Inr (data', sent')" by simp
      from Cons.IH [OF this] show ?thesis .
    next
      case (Some t)
      with Cons.prems Inr have lt: "t < length data" by (auto split: if_splits)
      with Cons.prems Inr Some obtain tg s1 where
        pi: "process_incident e field (data ! t) sent = Inr (tg, s1)" and
        rec: "process_loop e field hasacn imap (Suc idx) items (data[t := tg]) s1 = Inr (data', sent')"
        by (auto split: sum.splits)
      from process_incident_sets [OF pi] obtain c0 where
        tg: "tg = dict_set (data ! t) ''hfacs_classification'' c0" by blast
      from Cons.IH [OF rec] have len: "length data' = length data" and
        ih: "\<forall>i<length data. data' ! i = data[t := tg] ! i \<or>
               (\<exists>c. data' ! i = dict_set (data[t := tg] ! i) ''hfacs_classification'' c)"
        by auto
      have "\<forall>i<length data. data' ! i = data ! i \<or>
              (\<exists>c. data' ! i = dict_set (data ! i) ''hfacs_classification'' c)"
      proof (intro allI impI)
        fix i assume i: "i < length data"
        show "data' ! i = data ! i \<or>
              (\<exists>c. data' ! i = dict_set (data ! i) ''hfacs_classification'' c)"
        proof (cases "i = t")
          case True
          with ih [rule_format, OF i] i tg show ?thesis
            by (auto simp: dict_set_twice)
        next
          case False
          with ih [rule_format, OF i] show ?thesis by simp
        qed
      qed
      with len show ?thesis by blast
    qed
  qed
qed

lemma run_batch_inplace:
  assumes "run_batch e field inc existing s e' = Inr (out, sent)"
    and "master = (case existing of Some d \<Rightarrow> d | None \<Rightarrow> inc)"
  shows "length out = length master \<and>
         (\<forall>i<length master. out ! i = master ! i \<or>
            (\<exists>c. out ! i = dict_set (master ! i) ''hfacs_classification'' c))"
proof -
  from assms obtain ha imap where
    "process_loop e field ha imap s (take (e' - s) (drop s inc)) master [] = Inr (out, sent)"
    by (cases existing; cases "the existing")
       (auto simp: run_batch_def Let_def split: sum.splits if_splits)
  from process_loop_inplace [OF this] show ?thesis .
qed

text \<open>
  Two runs over any two ranges, the first creating the output file and the second
  resuming from it: the final output has as many records as the input, and each record
  is the input record at its index, with at most the classification set. When some
  incident has no \<open>ACN\<close> (the merge is positional) or the \<open>ACN\<close> values are pairwise
  distinct, a record in the range of a run is the one before the run with the
  classification of that run attached, and a record outside the range is left as it was.
\<close>

theorem resumable_merge:
  assumes "select_range (length incidents) a1 b1 = Some (s1, e1)"
    and "select_range (length incidents) a2 b2 = Some (s2, e2)"
    and "run_batch env1 field incidents None s1 e1 = Inr (out1, sent1)"
    and "run_batch env2 field incidents (Some out1) s2 e2 = Inr (out2, sent2)"
  shows "length out2 = length incidents \<and>
         (\<forall>i<length incidents.
            out2 ! i = incidents ! i \<or>
            (\<exists>c. out2 ! i = dict_set (incidents ! i) ''hfacs_classification'' c)) \<and>
         (\<not> has_acn incidents \<or> distinct (acn_keys incidents) \<longrightarrow>
            (\<forall>i<length incidents.
               (if s1 \<le> i \<and> i < e1
                then \<exists>t t'. process_incident env1 field (incidents ! i) t = Inr (out1 ! i, t')
                else out1 ! i = incidents ! i) \<and>
               (if s2 \<le> i \<and> i < e2
                then \<exists>t t'. process_incident env2 field (out1 ! i) t = Inr (out2 ! i, t')
                else out2 ! i = out1 ! i)))"
proof -
  from run_batch_inplace [OF assms(3)] have
    l1: "length out1 = length incidents" and
    p1: "\<forall>i<length incidents. out1 ! i = incidents ! i \<or>
            (\<exists>c. out1 ! i = dict_set (incidents ! i) ''hfacs_classification'' c)"
    by auto
  from run_batch_inplace [OF assms(4)] l1 have
    l2: "length out2 = length incidents" and
    p2: "\<forall>i<length incidents. out2 ! i = out1 ! i \<or>
            (\<exists>c. out2 ! i = dict_set (out1 ! i) ''hfacs_classification'' c)"
    by auto
  have inplace: "\<forall>i<length incidents.
            out2 ! i = incidents ! i \<or>
            (\<exists>c. out2 ! i = dict_set (incidents ! i) ''hfacs_classification'' c)"
  proof (intro allI impI)
    fix i assume i: "i < length incidents"
    from p1 [rule_format, OF i] p2 [rule_format, OF i]
    show "out2 ! i = incidents ! i \<or>
            (\<exists>c. out2 ! i = dict_set (incidents ! i) ''hfacs_classification'' c)"
      by (auto simp: dict_set_twice)
  qed
  have keyed: "\<forall>i<length incidents.
               (if s1 \<le> i \<and> i < e1
                then \<exists>t t'. process_incident env1 field (incidents ! i) t = Inr (out1 ! i, t')
                else out1 ! i = incidents ! i) \<and>
               (if s2 \<le> i \<and> i < e2
                then \<exists>t t'. process_incident env2 field (out1 ! i) t = Inr (out2 ! i, t')
                else out2 ! i = out1 ! i)"
    if k: "\<not> has_acn incidents \<or> distinct (acn_keys incidents)"
    using run_pair_merge [OF k assms] by blast
  from l2 inplace keyed show ?thesis by blast
qed

text \<open>
  A first run over the indices 0 and 1 and a second over 1 and 2, on three incidents
  with distinct identifiers: the second output has three records, the record 0 is the
  one of the first run, and the record 1 carries the classification of the second run.
\<close>

theorem resumable_merge_witness:
  "run_batch echo_env ''Narrative: 1'' three_incidents None 0 2 =
     Inr (first_output, [''Classify: Runway incursion.'', ''Classify: Altitude deviation.'']) \<and>
   run_batch again_env ''Narrative: 1'' three_incidents (Some first_output) 1 3 =
     Inr (second_output, [''Again: Altitude deviation.'', ''Again: Fuel imbalance.'']) \<and>
   length second_output = length three_incidents \<and>
   second_output ! 0 = first_output ! 0 \<and>
   (\<exists>t t'. process_incident again_env ''Narrative: 1'' (first_output ! 1) t =
              Inr (second_output ! 1, t'))"
proof -
  have k: "\<not> has_acn three_incidents \<or> distinct (acn_keys three_incidents)" by code_simp
  have r1: "select_range (length three_incidents) 0 (Some 2) = Some (0, 2)" by code_simp
  have r2: "select_range (length three_incidents) 1 None = Some (1, 3)" by code_simp
  have run1: "run_batch echo_env ''Narrative: 1'' three_incidents None 0 2 =
     Inr (first_output, [''Classify: Runway incursion.'', ''Classify: Altitude deviation.''])"
    by code_simp
  have run2: "run_batch again_env ''Narrative: 1'' three_incidents (Some first_output) 1 3 =
     Inr (second_output, [''Again: Altitude deviation.'', ''Again: Fuel imbalance.''])"
    by code_simp
  note m = resumable_merge [OF r1 r2 run1 run2]
  have len: "length three_incidents = 3" by (simp add: three_incidents_def)
  from m k have all: "\<forall>i<length three_incidents.
            (if 0 \<le> i \<and> i < 2
             then \<exists>t t'. process_incident echo_env ''Narrative: 1'' (three_incidents ! i) t =
                     Inr (first_output ! i, t')
             else first_output ! i = three_incidents ! i) \<and>
            (if 1 \<le> i \<and> i < 3
             then \<exists>t t'. process_incident again_env ''Narrative: 1'' (first_output ! i) t =
                     Inr (second_output ! i, t')
             else second_output ! i = first_output ! i)"
    by blast
  have i0: "second_output ! 0 = first_output ! 0"
    using all [rule_format, of 0] len by simp
  have i1: "\<exists>t t'. process_incident again_env ''Narrative: 1'' (first_output ! 1) t =
              Inr (second_output ! 1, t')"
    using all [rule_format, of 1] len by simp
  from m run1 run2 i0 i1 show ?thesis by blast
qed

text \<open>
  Claim C9 against the code: with identifiers that are not unique the update is neither
  positional nor to the processed record. The lookup table keeps the last index of an
  identifier, so a run over the index 0 of two incidents with the same \<open>ACN\<close> classifies
  the narrative of the record 1 and attaches the result there; the record 0, the one
  processed, is left without a classification.
\<close>

theorem duplicate_identifier_misroutes:
  "\<not> distinct (acn_keys twin_incidents) \<and>
   select_range (length twin_incidents) 0 (Some 1) = Some (0, 1) \<and>
   run_batch echo_env ''Narrative: 1'' twin_incidents None 0 1 =
     Inr ([[(''ACN'', JStr ''7''), (''Narrative: 1'', JObj [(''text'', JStr ''Gear problem.'')])],
           [(''ACN'', JStr ''7''), (''Narrative: 1'', JObj [(''text'', JStr ''Bird strike.'')]),
            (''hfacs_classification'', JArr [JStr ''Classify: Bird strike.''])]],
          [''Classify: Bird strike.''])"
  by code_simp

end
